theory Spec2Isabelle
  imports Main
begin

section \<open>The host interpreter's object model\<close>

text \<open>
  \<^verbatim>\<open>make_call.c\<close> is written against the object model of the R interpreter: every value
  is a \<^verbatim>\<open>SEXP\<close>, a pointer to a node on the interpreter's heap. The model keeps that
  shape. A \<open>sexp\<close> is one of the two distinguished constants the code meets
  (\<^verbatim>\<open>R_NilValue\<close>, \<^verbatim>\<open>R_UnboundValue\<close>) or a reference to a heap cell; a \<open>node\<close> is
  what a heap cell holds. Only the node kinds that \<^verbatim>\<open>make_call_\<close> can tell apart
  are kept apart; every other kind of R object is \<open>OtherNode\<close>.
\<close>

type_synonym addr = nat

datatype sexp = R_NilValue | R_UnboundValue | Ref addr

datatype sexptype =
  NILSXP | SYMSXP | LISTSXP | ENVSXP | PROMSXP | LANGSXP | STRSXP | VECSXP | OTHERSXP

datatype charsxp = CHARSXP string | NA_STRING

datatype node =
    SymNode string \<comment> \<open>\<^verbatim>\<open>SYMSXP\<close>: print name\<close>
  | ListNode sexp sexp sexp \<comment> \<open>\<^verbatim>\<open>LISTSXP\<close>: \<^verbatim>\<open>CAR\<close>, \<^verbatim>\<open>CDR\<close>, \<^verbatim>\<open>TAG\<close>\<close>
  | LangNode sexp sexp sexp \<comment> \<open>\<^verbatim>\<open>LANGSXP\<close>: \<^verbatim>\<open>CAR\<close>, \<^verbatim>\<open>CDR\<close>, \<^verbatim>\<open>TAG\<close>\<close>
  | PromNode sexp sexp sexp \<comment> \<open>\<^verbatim>\<open>PROMSXP\<close>: \<^verbatim>\<open>PRCODE\<close>, \<^verbatim>\<open>PRENV\<close>, \<^verbatim>\<open>PRVALUE\<close>\<close>
  | EnvNode \<comment> \<open>\<^verbatim>\<open>ENVSXP\<close>: opaque, identified by its address\<close>
  | StrNode "charsxp list" \<comment> \<open>\<^verbatim>\<open>STRSXP\<close>: character vector\<close>
  | VecNode "sexp list" sexp "string list"
      \<comment> \<open>\<^verbatim>\<open>VECSXP\<close>: elements, \<^verbatim>\<open>names\<close> attribute, entries of the \<^verbatim>\<open>class\<close> attribute\<close>
  | OtherNode \<comment> \<open>any other kind of object\<close>

text \<open>
  The interpreter state the routine can touch: the heap with its allocation pointer
  (cells below \<open>nxt\<close> are allocated), the global symbol table, and the pointer
  protection stack. \<open>visited\<close> is a ghost field: it logs the index at the head of each
  iteration of the construction loop and is read by no operation.
\<close>

record state =
  heap :: "addr \<Rightarrow> node"
  nxt :: addr
  symtab :: "(string \<times> sexp) list"
  ppstack :: "sexp list"
  visited :: "nat list"

text \<open>
  An R-level error (\<^verbatim>\<open>error(...)\<close>, a \<^verbatim>\<open>longjmp\<close> out of the routine) is \<open>RError\<close> with its
  message. \<open>Fault\<close> is an unchecked accessor macro (\<^verbatim>\<open>USE_RINTERNALS\<close>) applied to an object
  it is not defined on: undefined behaviour in C.
\<close>

datatype error = RError string | Fault string

type_synonym 'a comp = "state \<Rightarrow> (error + 'a) \<times> state"

definition return :: "'a \<Rightarrow> 'a comp" where
  "return x s = (Inr x, s)"

definition error :: "string \<Rightarrow> 'a comp" where
  "error msg s = (Inl (RError msg), s)"

definition fault :: "string \<Rightarrow> 'a comp" where
  "fault what s = (Inl (Fault what), s)"

definition seq :: "'a comp \<Rightarrow> ('a \<Rightarrow> 'b comp) \<Rightarrow> 'b comp" where
  "seq m f s = (case m s of (Inl e, s') \<Rightarrow> (Inl e, s') | (Inr x, s') \<Rightarrow> f x s')"

subsection \<open>Host primitives used by the routine\<close>

text \<open>
  Modelled from the spec: the spec names the primitives below only as ``host-interpreter
  internals (construction of deferred-evaluation records and cons-cell call nodes)''; they
  are not code of this repository, and \<^verbatim>\<open>make_call.c\<close> holds only their uses and the
  declaration of \<^verbatim>\<open>Rf_mkPROMISE\<close>. Each is modelled after the R API it belongs to
  (\<^verbatim>\<open>Rinternals.h\<close> with \<^verbatim>\<open>USE_RINTERNALS\<close>, where the accessors are unchecked macros).
  Resource exhaustion (allocation failure, overflow of the protection stack) and garbage
  collection are outside the model, and so are the header bits of a node (mark,
  generation, reference count).

  \<^item> \<^verbatim>\<open>TYPEOF\<close> reads the type tag of a node; \<^verbatim>\<open>R_UnboundValue\<close> is a symbol.
  \<^item> \<^verbatim>\<open>inherits(x, name)\<close> holds when the class attribute of \<open>x\<close> has the entry \<open>name\<close>.
  \<^item> \<^verbatim>\<open>length\<close> (\<^verbatim>\<open>Rf_length\<close>) is the number of elements of a vector; \<^verbatim>\<open>GET_NAMES\<close> is the
    names attribute, \<^verbatim>\<open>R_NilValue\<close> when there is none.
  \<^item> \<^verbatim>\<open>VECTOR_ELT\<close> and \<^verbatim>\<open>STRING_ELT\<close> index the data of a list and of a character vector
    without a check: on any other object, or out of range, they are a \<open>Fault\<close>.
  \<^item> \<^verbatim>\<open>CHAR\<close> (\<^verbatim>\<open>R_CHAR\<close>; \<open>CHAR\<close> is taken in Isabelle) gives the bytes of a string element;
    those of \<^verbatim>\<open>NA_STRING\<close> are \<^verbatim>\<open>NA\<close>.
  \<^item> \<^verbatim>\<open>CONS\<close>, \<^verbatim>\<open>LCONS\<close> and \<^verbatim>\<open>Rf_mkPROMISE\<close> allocate a node: a list cell and a call cell
    with no tag, a promise with no value yet. \<^verbatim>\<open>SET_TAG\<close> overwrites the tag of a cell.
  \<^item> \<^verbatim>\<open>PROTECT\<close> pushes a pointer on the protection stack, \<^verbatim>\<open>UNPROTECT(k)\<close> pops \<open>k\<close> of them
    and is an error when fewer are there.
\<close>

fun node_type :: "node \<Rightarrow> sexptype" where
  "node_type (SymNode _) = SYMSXP"
| "node_type (ListNode _ _ _) = LISTSXP"
| "node_type (LangNode _ _ _) = LANGSXP"
| "node_type (PromNode _ _ _) = PROMSXP"
| "node_type EnvNode = ENVSXP"
| "node_type (StrNode _) = STRSXP"
| "node_type (VecNode _ _ _) = VECSXP"
| "node_type OtherNode = OTHERSXP"

definition TYPEOF :: "state \<Rightarrow> sexp \<Rightarrow> sexptype" where
  "TYPEOF s x =
     (case x of R_NilValue \<Rightarrow> NILSXP | R_UnboundValue \<Rightarrow> SYMSXP
      | Ref a \<Rightarrow> node_type (heap s a))"

definition inherits :: "state \<Rightarrow> sexp \<Rightarrow> string \<Rightarrow> bool" where
  "inherits s x name =
     (case x of Ref a \<Rightarrow> (case heap s a of VecNode _ _ cls \<Rightarrow> name \<in> set cls | _ \<Rightarrow> False)
      | _ \<Rightarrow> False)"

definition Rf_length :: "state \<Rightarrow> sexp \<Rightarrow> nat" where
  "Rf_length s x =
     (case x of Ref a \<Rightarrow>
        (case heap s a of VecNode es _ _ \<Rightarrow> length es | StrNode cs \<Rightarrow> length cs | _ \<Rightarrow> 0)
      | _ \<Rightarrow> 0)"

definition GET_NAMES :: "state \<Rightarrow> sexp \<Rightarrow> sexp" where
  "GET_NAMES s x =
     (case x of Ref a \<Rightarrow> (case heap s a of VecNode _ nm _ \<Rightarrow> nm | _ \<Rightarrow> R_NilValue)
      | _ \<Rightarrow> R_NilValue)"

definition vector_elt :: "state \<Rightarrow> sexp \<Rightarrow> nat \<Rightarrow> sexp option" where
  "vector_elt s x i =
     (case x of Ref a \<Rightarrow>
        (case heap s a of VecNode es _ _ \<Rightarrow> if i < length es then Some (es ! i) else None
         | _ \<Rightarrow> None)
      | _ \<Rightarrow> None)"

definition VECTOR_ELT :: "sexp \<Rightarrow> nat \<Rightarrow> sexp comp" where
  "VECTOR_ELT x i s =
     (case vector_elt s x i of Some v \<Rightarrow> return v s | None \<Rightarrow> fault ''VECTOR_ELT'' s)"

definition string_elt :: "state \<Rightarrow> sexp \<Rightarrow> nat \<Rightarrow> charsxp option" where
  "string_elt s x i =
     (case x of Ref a \<Rightarrow>
        (case heap s a of StrNode cs \<Rightarrow> if i < length cs then Some (cs ! i) else None
         | _ \<Rightarrow> None)
      | _ \<Rightarrow> None)"

definition STRING_ELT :: "sexp \<Rightarrow> nat \<Rightarrow> charsxp comp" where
  "STRING_ELT x i s =
     (case string_elt s x i of Some c \<Rightarrow> return c s | None \<Rightarrow> fault ''STRING_ELT'' s)"

fun R_CHAR :: "charsxp \<Rightarrow> string" where
  "R_CHAR (CHARSXP str) = str"
| "R_CHAR NA_STRING = ''NA''"

definition alloc :: "node \<Rightarrow> sexp comp" where
  "alloc n s = (Inr (Ref (nxt s)), s\<lparr>heap := (heap s)(nxt s := n), nxt := Suc (nxt s)\<rparr>)"

definition CONS :: "sexp \<Rightarrow> sexp \<Rightarrow> sexp comp" where
  "CONS car cdr = alloc (ListNode car cdr R_NilValue)"

definition LCONS :: "sexp \<Rightarrow> sexp \<Rightarrow> sexp comp" where
  "LCONS car cdr = alloc (LangNode car cdr R_NilValue)"

definition Rf_mkPROMISE :: "sexp \<Rightarrow> sexp \<Rightarrow> sexp comp" where
  "Rf_mkPROMISE expr rho = alloc (PromNode expr rho R_UnboundValue)"

definition SET_TAG :: "sexp \<Rightarrow> sexp \<Rightarrow> unit comp" where
  "SET_TAG x v s =
     (case x of Ref a \<Rightarrow>
        (case heap s a of
           ListNode car cdr _ \<Rightarrow> (Inr (), s\<lparr>heap := (heap s)(a := ListNode car cdr v)\<rparr>)
         | LangNode car cdr _ \<Rightarrow> (Inr (), s\<lparr>heap := (heap s)(a := LangNode car cdr v)\<rparr>)
         | _ \<Rightarrow> fault ''SET_TAG'' s)
      | _ \<Rightarrow> fault ''SET_TAG'' s)"

definition MAXIDSIZE :: nat where
  "MAXIDSIZE = 10000"

text \<open>
  \<^verbatim>\<open>Rf_install\<close> returns the unique symbol of a name. It refuses the empty name and names
  longer than \<^verbatim>\<open>MAXIDSIZE\<close> bytes; a name seen for the first time gets a new symbol node,
  which is entered into the symbol table.
\<close>

definition Rf_install :: "string \<Rightarrow> sexp comp" where
  "Rf_install name s =
     (if name = [] then error ''attempt to use zero-length variable name'' s
      else if MAXIDSIZE < length name then error ''variable names are limited to 10000 bytes'' s
      else case map_of (symtab s) name of
          Some found \<Rightarrow> (Inr found, s)
        | None \<Rightarrow>
            (Inr (Ref (nxt s)),
             s\<lparr>heap := (heap s)(nxt s := SymNode name), nxt := Suc (nxt s),
               symtab := (name, Ref (nxt s)) # symtab s\<rparr>))"

definition PROTECT :: "sexp \<Rightarrow> sexp comp" where
  "PROTECT x s = (Inr x, s\<lparr>ppstack := x # ppstack s\<rparr>)"

definition UNPROTECT :: "nat \<Rightarrow> unit comp" where
  "UNPROTECT k s =
     (if k \<le> length (ppstack s) then (Inr (), s\<lparr>ppstack := drop k (ppstack s)\<rparr>)
      else error ''unprotect(): stack imbalance'' s)"

definition visit :: "nat \<Rightarrow> unit comp" where
  "visit i s = (Inr (), s\<lparr>visited := visited s @ [i]\<rparr>)"

section \<open>The routine\<close>

text \<open>
  \<^verbatim>\<open>lazy_to_promise\<close>, lines 8 to 11: the two components of a captured argument are read
  with the unchecked accessor and handed to the promise constructor.
\<close>

definition lazy_to_promise :: "sexp \<Rightarrow> sexp comp" where
  "lazy_to_promise x =
     seq (VECTOR_ELT x 0) (\<lambda>expr.
     seq (VECTOR_ELT x 1) (\<lambda>rho.
     Rf_mkPROMISE expr rho))"

text \<open>
  The body of the loop, lines 33 to 37, at index \<open>i\<close> with the argument list \<open>args\<close> built
  so far; it returns the new head of the argument list. Between the \<^verbatim>\<open>UNPROTECT(1)\<close> and
  the end of the body the promise stays on the protection stack.
\<close>

definition make_call_body :: "sexp \<Rightarrow> sexp \<Rightarrow> nat \<Rightarrow> sexp \<Rightarrow> sexp comp" where
  "make_call_body dots names i args =
     seq (visit i) (\<lambda>_.
     seq (VECTOR_ELT dots i) (\<lambda>dot.
     seq (lazy_to_promise dot) (\<lambda>p.
     seq (PROTECT p) (\<lambda>prom.
     seq (CONS prom args) (\<lambda>c.
     seq (PROTECT c) (\<lambda>args'.
     seq (UNPROTECT 1) (\<lambda>_.
     seq (STRING_ELT names i) (\<lambda>nm.
     seq (Rf_install (R_CHAR nm)) (\<lambda>tag.
     seq (SET_TAG args' tag) (\<lambda>_.
     return args'))))))))))"

text \<open>
  The loop of lines 32 to 38. The C index \<^verbatim>\<open>i\<close> runs from \<^verbatim>\<open>n - 1\<close> down to \<^verbatim>\<open>0\<close>; the
  counter of the model is \<^verbatim>\<open>i + 1\<close>, so that the loop ends at counter \<open>0\<close>.
\<close>

fun make_call_loop :: "sexp \<Rightarrow> sexp \<Rightarrow> nat \<Rightarrow> sexp \<Rightarrow> sexp comp" where
  "make_call_loop dots names 0 args = return args"
| "make_call_loop dots names (Suc i) args =
     seq (make_call_body dots names i args) (\<lambda>args'.
     make_call_loop dots names i args')"

text \<open>
  \<^verbatim>\<open>make_call_\<close>, lines 13 to 41 (an Isabelle name cannot end in an underscore). The three
  checks come first, in the order of the source; the empty list returns before the names
  attribute is fetched.
\<close>

definition make_call :: "sexp \<Rightarrow> sexp \<Rightarrow> sexp comp" where
  "make_call fn dots s =
     (if TYPEOF s fn \<noteq> SYMSXP \<and> TYPEOF s fn \<noteq> LANGSXP then
        error ''fun must be a call or a symbol'' s
      else if TYPEOF s dots \<noteq> VECSXP then
        error ''dots must be a list'' s
      else if \<not> inherits s dots ''lazy_dots'' then
        error ''dots must be of class lazy_dots'' s
      else
        let n = Rf_length s dots in
        if n = 0 then LCONS fn R_NilValue s
        else
          let names = GET_NAMES s dots in
          seq (make_call_loop dots names n R_NilValue) (\<lambda>args.
          seq (UNPROTECT n) (\<lambda>_.
          LCONS fn args)) s)"

section \<open>Vocabulary of the properties\<close>

subsection \<open>Well-formed inputs\<close>

text \<open>
  A pointer is valid when it is a constant or points below the allocation pointer. The
  symbol table is in order when every entry maps a name to an allocated symbol of that
  name. An input is well formed when \<open>dots\<close>, its names attribute and its elements are
  valid pointers: these are the pointers the routine follows.
\<close>

definition valid :: "state \<Rightarrow> sexp \<Rightarrow> bool" where
  "valid s x = (case x of Ref a \<Rightarrow> a < nxt s | _ \<Rightarrow> True)"

definition symtab_ok :: "state \<Rightarrow> bool" where
  "symtab_ok s =
     list_all (\<lambda>(name, x). case x of Ref a \<Rightarrow> a < nxt s \<and> heap s a = SymNode name | _ \<Rightarrow> False)
       (symtab s)"

definition elems_valid :: "state \<Rightarrow> sexp \<Rightarrow> bool" where
  "elems_valid s dots =
     (case dots of Ref a \<Rightarrow>
        (case heap s a of VecNode es _ _ \<Rightarrow> list_all (valid s) es | _ \<Rightarrow> True)
      | _ \<Rightarrow> True)"

definition wf_input :: "state \<Rightarrow> sexp \<Rightarrow> bool" where
  "wf_input s dots =
     (symtab_ok s \<and> valid s dots \<and> valid s (GET_NAMES s dots) \<and> elems_valid s dots)"

text \<open>The three checks of lines 14 to 22, and the error the first failing one raises.\<close>

definition checks_pass :: "state \<Rightarrow> sexp \<Rightarrow> sexp \<Rightarrow> bool" where
  "checks_pass s fn dots =
     ((TYPEOF s fn = SYMSXP \<or> TYPEOF s fn = LANGSXP) \<and> TYPEOF s dots = VECSXP \<and>
      inherits s dots ''lazy_dots'')"

definition first_failed_check :: "state \<Rightarrow> sexp \<Rightarrow> sexp \<Rightarrow> error" where
  "first_failed_check s fn dots =
     (if TYPEOF s fn \<noteq> SYMSXP \<and> TYPEOF s fn \<noteq> LANGSXP then
        RError ''fun must be a call or a symbol''
      else if TYPEOF s dots \<noteq> VECSXP then RError ''dots must be a list''
      else RError ''dots must be of class lazy_dots'')"

definition validation_errors :: "error list" where
  "validation_errors =
     [RError ''fun must be a call or a symbol'', RError ''dots must be a list'',
      RError ''dots must be of class lazy_dots'']"

definition is_validation_error :: "error + sexp \<Rightarrow> bool" where
  "is_validation_error r = (case r of Inl e \<Rightarrow> e \<in> set validation_errors | Inr _ \<Rightarrow> False)"

definition host_errors :: "error list" where
  "host_errors =
     [Fault ''VECTOR_ELT'', Fault ''STRING_ELT'', Fault ''SET_TAG'',
      RError ''attempt to use zero-length variable name'',
      RError ''variable names are limited to 10000 bytes'',
      RError ''unprotect(): stack imbalance'']"

text \<open>
  What element \<open>i\<close> of \<open>dots\<close> contributes: its two components and the characters of its
  name, when all three reads succeed. The element is in order when moreover the name is one
  \<^verbatim>\<open>Rf_install\<close> accepts.
\<close>

definition arg_spec :: "state \<Rightarrow> sexp \<Rightarrow> sexp \<Rightarrow> nat \<Rightarrow> (sexp \<times> sexp \<times> string) option" where
  "arg_spec s dots names i =
     (case vector_elt s dots i of None \<Rightarrow> None
      | Some dot \<Rightarrow>
        (case (vector_elt s dot 0, vector_elt s dot 1, string_elt s names i) of
           (Some e, Some rho, Some c) \<Rightarrow> Some (e, rho, R_CHAR c)
         | _ \<Rightarrow> None))"

definition arg_ok :: "state \<Rightarrow> sexp \<Rightarrow> sexp \<Rightarrow> nat \<Rightarrow> bool" where
  "arg_ok s dots names i =
     (case arg_spec s dots names i of None \<Rightarrow> False
      | Some (e, rho, name) \<Rightarrow> name \<noteq> [] \<and> length name \<le> MAXIDSIZE)"

definition args_ok :: "state \<Rightarrow> sexp \<Rightarrow> bool" where
  "args_ok s dots = list_all (arg_ok s dots (GET_NAMES s dots)) [0..<Rf_length s dots]"

text \<open>
  The input as claim C1 describes it: a symbol or call, and a list of class \<^verbatim>\<open>lazy_dots\<close>
  whose elements are lists of exactly two components, an expression and an environment.
  Nothing is asked of the names.
\<close>

definition lazy_elem :: "state \<Rightarrow> sexp \<Rightarrow> bool" where
  "lazy_elem s x =
     (case x of Ref a \<Rightarrow>
        (case heap s a of
           VecNode es _ _ \<Rightarrow>
             length es = 2 \<and> (TYPEOF s (es ! 0) = SYMSXP \<or> TYPEOF s (es ! 0) = LANGSXP) \<and>
             TYPEOF s (es ! 1) = ENVSXP
         | _ \<Rightarrow> False)
      | _ \<Rightarrow> False)"

definition lazy_dots_input :: "state \<Rightarrow> sexp \<Rightarrow> sexp \<Rightarrow> bool" where
  "lazy_dots_input s fn dots =
     (checks_pass s fn dots \<and>
      (case dots of Ref a \<Rightarrow>
         (case heap s a of VecNode es _ _ \<Rightarrow> list_all (lazy_elem s) es | _ \<Rightarrow> False)
       | _ \<Rightarrow> False))"

subsection \<open>Reading the heap before and after\<close>

text \<open>
  \<open>frame s s'\<close>: from \<open>s\<close> to \<open>s'\<close> the heap has only grown, every cell allocated in \<open>s\<close> holds
  what it held, and the symbol table has only gained entries.
\<close>

definition frame :: "state \<Rightarrow> state \<Rightarrow> bool" where
  "frame s s' =
     (nxt s \<le> nxt s' \<and> (\<forall>a<nxt s. heap s' a = heap s a) \<and>
      (\<exists>new. symtab s' = new @ symtab s))"


definition is_symbol :: "state \<Rightarrow> sexp \<Rightarrow> string \<Rightarrow> bool" where
  "is_symbol s x name =
     (case x of Ref a \<Rightarrow> a < nxt s \<and> heap s a = SymNode name | _ \<Rightarrow> False)"

definition is_promise :: "state \<Rightarrow> sexp \<Rightarrow> sexp \<Rightarrow> sexp \<Rightarrow> bool" where
  "is_promise s x expr rho =
     (case x of Ref a \<Rightarrow> a < nxt s \<and> heap s a = PromNode expr rho R_UnboundValue
      | _ \<Rightarrow> False)"

text \<open>
  \<open>pairlist s x cs\<close>: in \<open>s\<close>, \<open>x\<close> is the head of a linked list of allocated \<^verbatim>\<open>LISTSXP\<close> cells
  whose (tag, value) pairs are \<open>cs\<close>, ending in \<^verbatim>\<open>R_NilValue\<close>.
\<close>

primrec pairlist :: "state \<Rightarrow> sexp \<Rightarrow> (sexp \<times> sexp) list \<Rightarrow> bool" where
  "pairlist s x [] = (x = R_NilValue)"
| "pairlist s x (c # cs) =
     (case x of Ref a \<Rightarrow> a < nxt s \<and>
        (case heap s a of ListNode car cdr tag \<Rightarrow> c = (tag, car) \<and> pairlist s cdr cs
         | _ \<Rightarrow> False)
      | _ \<Rightarrow> False)"

definition arg_slot :: "state \<Rightarrow> sexp \<times> sexp \<times> string \<Rightarrow> sexp \<times> sexp \<Rightarrow> bool" where
  "arg_slot s sp slot =
     (case (sp, slot) of ((e, rho, name), (tag, car)) \<Rightarrow>
        is_promise s car e rho \<and> is_symbol s tag name)"

definition slot_for :: "state \<Rightarrow> state \<Rightarrow> sexp \<Rightarrow> sexp \<Rightarrow> nat \<Rightarrow> sexp \<times> sexp \<Rightarrow> bool" where
  "slot_for s s' dots names i slot =
     (case arg_spec s dots names i of None \<Rightarrow> False | Some sp \<Rightarrow> arg_slot s' sp slot)"

text \<open>
  Readers that turn a call on the heap into a value: the name of a symbol, the three
  fields of a promise, the (tag, value) pairs of an argument list of at most \<open>k\<close> cells, and
  the call as its head with the list of its slots, each slot the print name of its tag
  and the fields of its promise.
\<close>

type_synonym call_view = "sexp \<times> (string option \<times> (sexp \<times> sexp \<times> sexp) option) list"

definition symbol_name :: "state \<Rightarrow> sexp \<Rightarrow> string option" where
  "symbol_name s x =
     (case x of Ref a \<Rightarrow> (case heap s a of SymNode name \<Rightarrow> Some name | _ \<Rightarrow> None)
      | _ \<Rightarrow> None)"

definition promise_view :: "state \<Rightarrow> sexp \<Rightarrow> (sexp \<times> sexp \<times> sexp) option" where
  "promise_view s x =
     (case x of Ref a \<Rightarrow>
        (case heap s a of PromNode code rho val \<Rightarrow> Some (code, rho, val) | _ \<Rightarrow> None)
      | _ \<Rightarrow> None)"

fun read_args :: "nat \<Rightarrow> state \<Rightarrow> sexp \<Rightarrow> (sexp \<times> sexp) list option" where
  "read_args 0 s x = (if x = R_NilValue then Some [] else None)"
| "read_args (Suc k) s x =
     (case x of R_NilValue \<Rightarrow> Some []
      | Ref a \<Rightarrow>
          (case heap s a of
             ListNode car cdr tag \<Rightarrow> map_option ((#) (tag, car)) (read_args k s cdr)
           | _ \<Rightarrow> None)
      | _ \<Rightarrow> None)"

definition call_view :: "nat \<Rightarrow> state \<Rightarrow> sexp \<Rightarrow> call_view option" where
  "call_view k s x =
     (case x of Ref a \<Rightarrow>
        (case heap s a of
           LangNode head args _ \<Rightarrow>
             map_option
               (\<lambda>slots. (head, map (\<lambda>(tag, car). (symbol_name s tag, promise_view s car)) slots))
               (read_args k s args)
         | _ \<Rightarrow> None)
      | _ \<Rightarrow> None)"

definition call_args :: "nat \<Rightarrow> state \<Rightarrow> sexp \<Rightarrow> sexp list option" where
  "call_args k s x =
     (case x of Ref a \<Rightarrow>
        (case heap s a of LangNode head args _ \<Rightarrow> map_option (map snd) (read_args k s args)
         | _ \<Rightarrow> None)
      | _ \<Rightarrow> None)"

definition outcome_view :: "nat \<Rightarrow> (error + sexp) \<times> state \<Rightarrow> (error + call_view) option" where
  "outcome_view k out =
     (case out of (Inl e, s') \<Rightarrow> Some (Inl e)
      | (Inr call, s') \<Rightarrow> map_option Inr (call_view k s' call))"

subsection \<open>The routine as a function of what it reads\<close>

text \<open>
  What the routine reads of its input: the pointer \<open>fn\<close> and its type, the type and class
  test of \<open>dots\<close>, and for every index the two components of the element and the characters
  of its name, each absent when the read is undefined. \<open>make_call_spec\<close> is the abstract
  description of the spec, "given a function reference and an ordered list of (expression,
  environment) pairs, build a linked call node whose argument slots are deferred-evaluation
  bindings, preserving argument names and order, failing fast on malformed input
  categories", made total: elements are consumed from the last to the first, as the loop
  does, and the first one that cannot be consumed decides the error.
\<close>

type_synonym elem_view = "(sexp option \<times> sexp option) option \<times> string option"

definition elem_view :: "state \<Rightarrow> sexp \<Rightarrow> sexp \<Rightarrow> nat \<Rightarrow> elem_view" where
  "elem_view s dots names i =
     (map_option (\<lambda>dot. (vector_elt s dot 0, vector_elt s dot 1)) (vector_elt s dots i),
      map_option R_CHAR (string_elt s names i))"

record input_view =
  fun_ref :: sexp
  fun_type :: sexptype
  dots_type :: sexptype
  dots_lazy :: bool
  dots_elems :: "elem_view list"

definition input_view :: "state \<Rightarrow> sexp \<Rightarrow> sexp \<Rightarrow> input_view" where
  "input_view s fn dots =
     \<lparr>fun_ref = fn, fun_type = TYPEOF s fn, dots_type = TYPEOF s dots,
      dots_lazy = inherits s dots ''lazy_dots'',
      dots_elems = map (elem_view s dots (GET_NAMES s dots)) [0..<Rf_length s dots]\<rparr>"

fun elem_check :: "elem_view \<Rightarrow> error + sexp \<times> sexp \<times> string" where
  "elem_check (Some (Some e, Some rho), Some name) =
     (if name = [] then Inl (RError ''attempt to use zero-length variable name'')
      else if MAXIDSIZE < length name then
        Inl (RError ''variable names are limited to 10000 bytes'')
      else Inr (e, rho, name))"
| "elem_check (Some (Some e, Some rho), None) = Inl (Fault ''STRING_ELT'')"
| "elem_check _ = Inl (Fault ''VECTOR_ELT'')"

fun collect :: "(error + 'a) list \<Rightarrow> error + 'a list" where
  "collect [] = Inr []"
| "collect (x # xs) =
     (case collect xs of Inl e \<Rightarrow> Inl e
      | Inr ys \<Rightarrow> (case x of Inl e \<Rightarrow> Inl e | Inr y \<Rightarrow> Inr (y # ys)))"

definition make_call_spec :: "input_view \<Rightarrow> error + call_view" where
  "make_call_spec v =
     (if fun_type v \<noteq> SYMSXP \<and> fun_type v \<noteq> LANGSXP then
        Inl (RError ''fun must be a call or a symbol'')
      else if dots_type v \<noteq> VECSXP then Inl (RError ''dots must be a list'')
      else if \<not> dots_lazy v then Inl (RError ''dots must be of class lazy_dots'')
      else case collect (map elem_check (dots_elems v)) of
          Inl e \<Rightarrow> Inl e
        | Inr args \<Rightarrow>
            Inr (fun_ref v,
                 map (\<lambda>(e, rho, name). (Some name, Some (e, rho, R_UnboundValue))) args))"

subsection \<open>The two halves of the loop body\<close>

text \<open>
  For the proofs the body is cut after \<^verbatim>\<open>UNPROTECT(1)\<close>: \<open>body_cell\<close> builds the promise and
  the cell, \<open>body_tag\<close> names the cell. \<open>body_spec\<close> is the body's result written out.
\<close>

definition body_cell :: "sexp \<Rightarrow> nat \<Rightarrow> sexp \<Rightarrow> sexp comp" where
  "body_cell dots i args =
     seq (visit i) (\<lambda>_.
     seq (VECTOR_ELT dots i) (\<lambda>dot.
     seq (lazy_to_promise dot) (\<lambda>p.
     seq (PROTECT p) (\<lambda>prom.
     seq (CONS prom args) (\<lambda>c.
     seq (PROTECT c) (\<lambda>args'.
     seq (UNPROTECT 1) (\<lambda>_.
     return args')))))))"

definition body_tag :: "sexp \<Rightarrow> nat \<Rightarrow> sexp \<Rightarrow> sexp comp" where
  "body_tag names i args' =
     seq (STRING_ELT names i) (\<lambda>nm.
     seq (Rf_install (R_CHAR nm)) (\<lambda>tag.
     seq (SET_TAG args' tag) (\<lambda>_.
     return args')))"

definition body_spec :: "sexp \<Rightarrow> sexp \<Rightarrow> nat \<Rightarrow> sexp \<Rightarrow> sexp comp" where
  "body_spec dots names i args s =
     (let s0 = s\<lparr>visited := visited s @ [i]\<rparr>; p = nxt s in
      case vector_elt s dots i of None \<Rightarrow> (Inl (Fault ''VECTOR_ELT''), s0)
      | Some dot \<Rightarrow>
      (case vector_elt s dot 0 of None \<Rightarrow> (Inl (Fault ''VECTOR_ELT''), s0)
       | Some e \<Rightarrow>
       (case vector_elt s dot 1 of None \<Rightarrow> (Inl (Fault ''VECTOR_ELT''), s0)
        | Some rho \<Rightarrow>
        (let s2 = s0\<lparr>heap := (heap s)(p := PromNode e rho R_UnboundValue,
                                       Suc p := ListNode (Ref p) args R_NilValue),
                      nxt := Suc (Suc p), ppstack := Ref p # ppstack s\<rparr> in
         case string_elt s names i of None \<Rightarrow> (Inl (Fault ''STRING_ELT''), s2)
         | Some c \<Rightarrow>
           if R_CHAR c = [] then
             (Inl (RError ''attempt to use zero-length variable name''), s2)
           else if MAXIDSIZE < length (R_CHAR c) then
             (Inl (RError ''variable names are limited to 10000 bytes''), s2)
           else (case map_of (symtab s) (R_CHAR c) of
               Some tag \<Rightarrow>
                 (Inr (Ref (Suc p)),
                  s2\<lparr>heap := (heap s2)(Suc p := ListNode (Ref p) args tag)\<rparr>)
             | None \<Rightarrow>
                 (Inr (Ref (Suc p)),
                  s2\<lparr>heap := (heap s2)(Suc (Suc p) := SymNode (R_CHAR c),
                         Suc p := ListNode (Ref p) args (Ref (Suc (Suc p)))),
                     nxt := Suc (Suc (Suc p)),
                     symtab := (R_CHAR c, Ref (Suc (Suc p))) # symtab s\<rparr>))))))"

subsection \<open>Evaluating the call later\<close>

text \<open>
  Modelled from the spec: the host interpreter's access to a promise when the call is
  evaluated. The evaluator is not part of this repository; only the declaration of the
  promise constructor is. The glossary: a promise is ``a pairing of an expression with the
  environment it should be evaluated in, evaluated at most once, on first access, with its
  result cached thereafter''. \<open>ev\<close> is the evaluator, a parameter; the cache is the
  \<^verbatim>\<open>PRVALUE\<close> field, which the constructor sets to \<^verbatim>\<open>R_UnboundValue\<close>. An access returns
  the value and appends to the log every (expression, environment) pair it evaluates.
\<close>

type_synonym eval_log = "(sexp \<times> sexp) list"

definition force_promise ::
  "(sexp \<Rightarrow> sexp \<Rightarrow> sexp) \<Rightarrow> sexp \<Rightarrow> state \<times> eval_log \<Rightarrow> sexp option \<times> state \<times> eval_log" where
  "force_promise ev p st =
     (case st of (s, log) \<Rightarrow>
        (case p of
           Ref a \<Rightarrow>
             (case heap s a of
                PromNode code rho val \<Rightarrow>
                  if val = R_UnboundValue then
                    (Some (ev code rho),
                     s\<lparr>heap := (heap s)(a := PromNode code rho (ev code rho))\<rparr>,
                     log @ [(code, rho)])
                  else (Some val, s, log)
              | _ \<Rightarrow> (None, s, log))
         | _ \<Rightarrow> (None, s, log)))"

fun force_all ::
  "(sexp \<Rightarrow> sexp \<Rightarrow> sexp) \<Rightarrow> sexp list \<Rightarrow> state \<times> eval_log \<Rightarrow>
     sexp option list \<times> state \<times> eval_log" where
  "force_all ev [] st = ([], st)"
| "force_all ev (p # ps) st =
     (case force_promise ev p st of (v, st') \<Rightarrow>
        (case force_all ev ps st' of (vs, st'') \<Rightarrow> (v # vs, st'')))"

text \<open>The accesses that are the first to their argument, in order (\<open>seen\<close>: accessed before).\<close>

fun first_uses :: "nat list \<Rightarrow> nat list \<Rightarrow> nat list" where
  "first_uses seen [] = []"
| "first_uses seen (i # js) =
     (if i \<in> set seen then first_uses seen js else i # first_uses (i # seen) js)"

text \<open>
  The promise cells of an argument list: cell \<open>i\<close> holds the promise of \<open>specs ! i\<close>, forced
  exactly when \<open>i\<close> is in \<open>seen\<close>.
\<close>

definition cells_inv ::
  "(sexp \<Rightarrow> sexp \<Rightarrow> sexp) \<Rightarrow> sexp list \<Rightarrow> (sexp \<times> sexp) list \<Rightarrow> nat list \<Rightarrow> state \<Rightarrow> bool" where
  "cells_inv ev proms specs seen s =
     (\<forall>i<length proms. promise_view s (proms ! i) =
        Some (fst (specs ! i), snd (specs ! i),
              if i \<in> set seen then ev (fst (specs ! i)) (snd (specs ! i)) else R_UnboundValue))"

subsection \<open>Example states\<close>

text \<open>
  A heap with the symbols \<^verbatim>\<open>f\<close>, \<^verbatim>\<open>x\<close>, \<^verbatim>\<open>y\<close>, an environment, two captured arguments
  (\<^verbatim>\<open>x\<close> and \<^verbatim>\<open>y\<close>, each with the environment), and four lists of class \<^verbatim>\<open>lazy_dots\<close>:
  cell 8 names the arguments \<^verbatim>\<open>a\<close> and \<^verbatim>\<open>b\<close>, cell 10 names only the first (the second name
  is the empty string, as for a positional argument), cell 11 has no names attribute, and
  cell 12 is empty.
\<close>

definition heap0 :: "addr \<Rightarrow> node" where
  "heap0 = (\<lambda>_. OtherNode)
     (0 := SymNode ''f'', 1 := EnvNode, 2 := SymNode ''x'', 3 := SymNode ''y'',
      4 := StrNode [CHARSXP ''expr'', CHARSXP ''env''],
      5 := VecNode [Ref 2, Ref 1] (Ref 4) [''lazy''],
      6 := VecNode [Ref 3, Ref 1] (Ref 4) [''lazy''],
      7 := StrNode [CHARSXP ''a'', CHARSXP ''b''],
      8 := VecNode [Ref 5, Ref 6] (Ref 7) [''lazy_dots''],
      9 := StrNode [CHARSXP ''a'', CHARSXP []],
      10 := VecNode [Ref 5, Ref 6] (Ref 9) [''lazy_dots''],
      11 := VecNode [Ref 5, Ref 6] R_NilValue [''lazy_dots''],
      12 := VecNode [] R_NilValue [''lazy_dots''])"

definition state0 :: state where
  "state0 = \<lparr>heap = heap0, nxt = 13,
     symtab = [(''f'', Ref 0), (''x'', Ref 2), (''y'', Ref 3)], ppstack = [], visited = []\<rparr>"

text \<open>
  A second state: more cells are allocated, the symbol \<^verbatim>\<open>a\<close> is interned already, the
  protection stack is not empty, and cell 14 is another list with the elements and names
  of cell 8.
\<close>

definition state1 :: state where
  "state1 = \<lparr>heap = heap0(13 := SymNode ''a'',
                            14 := VecNode [Ref 5, Ref 6] (Ref 7) [''tbl'', ''lazy_dots'']),
     nxt = 20,
     symtab = [(''a'', Ref 13), (''f'', Ref 0), (''x'', Ref 2), (''y'', Ref 3)],
     ppstack = [Ref 1], visited = []\<rparr>"

text \<open>
  A third state: cell 14 is a list with the elements of cell 8 whose second name is 10001
  bytes long, one more than \<^verbatim>\<open>Rf_install\<close> accepts.
\<close>

definition state2 :: state where
  "state2 = \<lparr>heap = heap0(13 := StrNode [CHARSXP ''a'', CHARSXP (replicate 10001 CHR ''b'')],
                            14 := VecNode [Ref 5, Ref 6] (Ref 13) [''lazy_dots'']),
     nxt = 15,
     symtab = [(''f'', Ref 0), (''x'', Ref 2), (''y'', Ref 3)], ppstack = [], visited = []\<rparr>"

section \<open>Lemmas\<close>

subsection \<open>Frames\<close>

text \<open>
  Reads through valid pointers are not affected by what happens beyond the allocation
  pointer.
\<close>

lemma frame_refl: "frame s s"
  by (simp add: frame_def)

lemma frame_trans: "frame s s1 \<Longrightarrow> frame s1 s2 \<Longrightarrow> frame s s2"
  by (auto simp: frame_def)

lemma frame_vector_elt: "frame s s' \<Longrightarrow> valid s x \<Longrightarrow> vector_elt s' x i = vector_elt s x i"
  by (auto simp: frame_def valid_def vector_elt_def split: sexp.splits)

lemma frame_string_elt: "frame s s' \<Longrightarrow> valid s x \<Longrightarrow> string_elt s' x i = string_elt s x i"
  by (auto simp: frame_def valid_def string_elt_def split: sexp.splits)

lemma frame_valid: "frame s s' \<Longrightarrow> valid s x \<Longrightarrow> valid s' x"
  by (auto simp: frame_def valid_def split: sexp.splits)

lemma frame_is_symbol: "frame s s' \<Longrightarrow> is_symbol s x name \<Longrightarrow> is_symbol s' x name"
  by (auto simp: frame_def is_symbol_def split: sexp.splits)

lemma frame_is_promise: "frame s s' \<Longrightarrow> is_promise s x e rho \<Longrightarrow> is_promise s' x e rho"
  by (auto simp: frame_def is_promise_def split: sexp.splits)

subsection \<open>The loop body\<close>

text \<open>
  Whatever its outcome, one iteration leaves the allocated cells alone and logs its index.
  On a valid names pointer its result is \<open>body_spec\<close>.
\<close>

lemma body_frame:
  "make_call_body dots names i args s = (r, s') \<Longrightarrow>
     frame s s' \<and> visited s' = visited s @ [i]"
  unfolding make_call_body_def lazy_to_promise_def
  by (auto simp: seq_def visit_def VECTOR_ELT_def STRING_ELT_def return_def fault_def error_def
      Rf_mkPROMISE_def alloc_def PROTECT_def CONS_def UNPROTECT_def Rf_install_def SET_TAG_def
      frame_def
      split: option.splits if_splits sum.splits prod.splits sexp.splits node.splits)

lemmas prim_defs = seq_def visit_def VECTOR_ELT_def STRING_ELT_def return_def fault_def error_def
      Rf_mkPROMISE_def alloc_def PROTECT_def CONS_def UNPROTECT_def Rf_install_def SET_TAG_def

lemma seq_assoc: "seq (seq m f) g = seq m (\<lambda>x. seq (f x) g)"
  by (auto simp: seq_def fun_eq_iff split: prod.splits sum.splits)

lemma seq_return: "seq (return x) f = f x"
  by (simp add: seq_def return_def fun_eq_iff)

lemma body_split:
  "make_call_body dots names i args = seq (body_cell dots i args) (body_tag names i)"
  by (simp add: make_call_body_def body_cell_def body_tag_def seq_assoc seq_return)

lemma vector_elt_visited [simp]: "vector_elt (s\<lparr>visited := v\<rparr>) x j = vector_elt s x j"
  by (simp add: vector_elt_def split: sexp.splits)

lemma body_cell_eq:
  "body_cell dots i args s =
     (let s0 = s\<lparr>visited := visited s @ [i]\<rparr>; p = nxt s in
      case vector_elt s dots i of None \<Rightarrow> (Inl (Fault ''VECTOR_ELT''), s0)
      | Some dot \<Rightarrow>
      (case vector_elt s dot 0 of None \<Rightarrow> (Inl (Fault ''VECTOR_ELT''), s0)
       | Some e \<Rightarrow>
       (case vector_elt s dot 1 of None \<Rightarrow> (Inl (Fault ''VECTOR_ELT''), s0)
        | Some rho \<Rightarrow>
         (Inr (Ref (Suc p)),
          s0\<lparr>heap := (heap s)(p := PromNode e rho R_UnboundValue,
                                       Suc p := ListNode (Ref p) args R_NilValue),
                      nxt := Suc (Suc p), ppstack := Ref p # ppstack s\<rparr>))))"
  unfolding body_cell_def lazy_to_promise_def
  by (simp add: seq_def visit_def VECTOR_ELT_def return_def fault_def Rf_mkPROMISE_def alloc_def
      PROTECT_def CONS_def UNPROTECT_def Let_def split: option.splits)

lemma body_tag_eq:
  assumes "heap s a = ListNode car cdr t0" and "a < nxt s"
  shows "body_tag names i (Ref a) s =
     (case string_elt s names i of None \<Rightarrow> (Inl (Fault ''STRING_ELT''), s)
      | Some c \<Rightarrow>
        if R_CHAR c = [] then
          (Inl (RError ''attempt to use zero-length variable name''), s)
        else if MAXIDSIZE < length (R_CHAR c) then
          (Inl (RError ''variable names are limited to 10000 bytes''), s)
        else (case map_of (symtab s) (R_CHAR c) of
            Some tag \<Rightarrow> (Inr (Ref a), s\<lparr>heap := (heap s)(a := ListNode car cdr tag)\<rparr>)
          | None \<Rightarrow>
              (Inr (Ref a),
               s\<lparr>heap := (heap s)(nxt s := SymNode (R_CHAR c),
                      a := ListNode car cdr (Ref (nxt s))),
                 nxt := Suc (nxt s),
                 symtab := (R_CHAR c, Ref (nxt s)) # symtab s\<rparr>)))"
  using assms
  unfolding body_tag_def
  apply (simp add: seq_def STRING_ELT_def return_def fault_def error_def Rf_install_def SET_TAG_def
      split: option.splits)
  done

lemma string_elt_fresh:
  assumes "valid s x"
  shows "string_elt (s\<lparr>visited := v, heap := (heap s)(nxt s := n1, Suc (nxt s) := n2),
            nxt := k, ppstack := pp\<rparr>) x i = string_elt s x i"
  using assms by (auto simp: string_elt_def valid_def split: sexp.splits)

lemma body_eq:
  assumes "valid s names"
  shows "make_call_body dots names i args s = body_spec dots names i args s"
proof -
  have st: "string_elt (s\<lparr>visited := v, heap := (heap s)(nxt s := n1, Suc (nxt s) := n2),
            nxt := k, ppstack := pp\<rparr>) names i = string_elt s names i" for v n1 n2 k pp
    using assms by (rule string_elt_fresh)
  show ?thesis
    unfolding body_split body_spec_def
    by (simp add: seq_def [of "body_cell dots i args"] body_cell_eq Let_def body_tag_eq st
        split: option.splits)
qed

lemma symtab_okD:
  assumes "symtab_ok s" and "map_of (symtab s) name = Some x"
  shows "\<exists>a. x = Ref a \<and> a < nxt s \<and> heap s a = SymNode name"
proof -
  from assms(2) have "(name, x) \<in> set (symtab s)" by (rule map_of_SomeD)
  with assms(1) show ?thesis
    by (auto simp: symtab_ok_def list_all_iff split: sexp.splits)
qed

lemma body_result:
  assumes "make_call_body dots names i args s = (Inr a, s')" and "symtab_ok s" and "valid s names"
  shows "\<exists>dot e rho c tag. vector_elt s dots i = Some dot \<and> vector_elt s dot 0 = Some e \<and>
      vector_elt s dot 1 = Some rho \<and> string_elt s names i = Some c \<and>
      a = Ref (Suc (nxt s)) \<and> Suc (nxt s) < nxt s' \<and>
      heap s' (nxt s) = PromNode e rho R_UnboundValue \<and>
      heap s' (Suc (nxt s)) = ListNode (Ref (nxt s)) args tag \<and>
      is_symbol s' tag (R_CHAR c) \<and> symtab_ok s' \<and> ppstack s' = Ref (nxt s) # ppstack s"
proof -
  from assms(1) have sp: "body_spec dots names i args s = (Inr a, s')"
    by (simp add: body_eq [OF assms(3)])
  then obtain dot e rho c where reads: "vector_elt s dots i = Some dot"
      "vector_elt s dot 0 = Some e" "vector_elt s dot 1 = Some rho" "string_elt s names i = Some c"
    and ok: "R_CHAR c \<noteq> []" "\<not> MAXIDSIZE < length (R_CHAR c)"
    by (auto simp: body_spec_def Let_def split: option.splits if_splits)
  show ?thesis
  proof (cases "map_of (symtab s) (R_CHAR c)")
    case None
    with sp reads ok have a: "a = Ref (Suc (nxt s))"
      and s': "s' = s\<lparr>visited := visited s @ [i],
          heap := (heap s)(nxt s := PromNode e rho R_UnboundValue,
             Suc (nxt s) := ListNode (Ref (nxt s)) args R_NilValue,
             Suc (Suc (nxt s)) := SymNode (R_CHAR c),
             Suc (nxt s) := ListNode (Ref (nxt s)) args (Ref (Suc (Suc (nxt s))))),
          nxt := Suc (Suc (Suc (nxt s))), ppstack := Ref (nxt s) # ppstack s,
          symtab := (R_CHAR c, Ref (Suc (Suc (nxt s)))) # symtab s\<rparr>"
      by (auto simp: body_spec_def Let_def)
    have "symtab_ok s'"
      using assms(2) unfolding s' symtab_ok_def list_all_iff
      by (auto split: sexp.splits)
    moreover have "is_symbol s' (Ref (Suc (Suc (nxt s)))) (R_CHAR c)"
      unfolding s' is_symbol_def by simp
    ultimately show ?thesis using reads a unfolding s' by auto
  next
    case (Some tag)
    with sp reads ok have a: "a = Ref (Suc (nxt s))"
      and s': "s' = s\<lparr>visited := visited s @ [i],
          heap := (heap s)(nxt s := PromNode e rho R_UnboundValue,
             Suc (nxt s) := ListNode (Ref (nxt s)) args R_NilValue,
             Suc (nxt s) := ListNode (Ref (nxt s)) args tag),
          nxt := Suc (Suc (nxt s)), ppstack := Ref (nxt s) # ppstack s\<rparr>"
      by (auto simp: body_spec_def Let_def)
    from symtab_okD [OF assms(2) Some] obtain t where t: "tag = Ref t" "t < nxt s"
      "heap s t = SymNode (R_CHAR c)" by blast
    have "symtab_ok s'"
      using assms(2) unfolding s' symtab_ok_def list_all_iff
      by (auto split: sexp.splits)
    moreover have "is_symbol s' tag (R_CHAR c)"
      unfolding s' is_symbol_def using t by simp
    ultimately show ?thesis using reads a unfolding s' by auto
  qed
qed

lemma body_total:
  assumes "vector_elt s dots i = Some dot" and "vector_elt s dot 0 = Some e"
    and "vector_elt s dot 1 = Some rho" and "string_elt s names i = Some c" and "valid s names"
    and "R_CHAR c \<noteq> []" and "length (R_CHAR c) \<le> MAXIDSIZE"
  shows "\<exists>a s'. make_call_body dots names i args s = (Inr a, s')"
  using assms(1-4,6,7) unfolding body_eq [OF assms(5)] body_spec_def
  by (auto simp: Let_def split: option.splits)

subsection \<open>The loop\<close>

text \<open>
  Partial correctness (\<open>loop_result\<close>: the list a successful loop has built), totality
  (\<open>loop_total\<close>) and the effect of any run, successful or not (\<open>loop_effect\<close>).
\<close>

lemma frame_pairlist: "frame s s' \<Longrightarrow> pairlist s x cs \<Longrightarrow> pairlist s' x cs"
proof (induction cs arbitrary: x)
  case Nil
  then show ?case by simp
next
  case (Cons c cs)
  then show ?case
    by (auto simp: frame_def split: sexp.splits node.splits)
qed

lemma elems_validD: "elems_valid s dots \<Longrightarrow> vector_elt s dots i = Some dot \<Longrightarrow> valid s dot"
  by (auto simp: elems_valid_def vector_elt_def list_all_length
      split: sexp.splits node.splits if_splits)

lemma frame_elems_valid:
  "frame s s' \<Longrightarrow> valid s dots \<Longrightarrow> elems_valid s dots \<Longrightarrow> elems_valid s' dots"
  by (auto simp: elems_valid_def frame_def valid_def list_all_iff
      split: sexp.splits node.splits)

lemma frame_arg_spec:
  assumes "frame s s'" and "valid s dots" and "valid s names" and "elems_valid s dots"
  shows "arg_spec s' dots names i = arg_spec s dots names i"
proof (cases "vector_elt s dots i")
  case None
  then show ?thesis
    by (simp add: arg_spec_def frame_vector_elt [OF assms(1,2)])
next
  case (Some dot)
  then have "valid s dot" using assms(4) by (simp add: elems_validD)
  with Some show ?thesis
    by (simp add: arg_spec_def frame_vector_elt [OF assms(1)] assms(2)
        frame_string_elt [OF assms(1,3)])
qed

lemma frame_slot_for:
  "frame s1 s2 \<Longrightarrow> slot_for s s1 dots names i slot \<Longrightarrow> slot_for s s2 dots names i slot"
  by (auto simp: slot_for_def arg_slot_def split: option.splits
      intro: frame_is_promise frame_is_symbol)

lemma loop_result:
  assumes "make_call_loop dots names k args s = (Inr r, s')"
    and "symtab_ok s" and "valid s dots" and "valid s names" and "elems_valid s dots"
    and "pairlist s args old"
  shows "\<exists>slots. pairlist s' r (slots @ old) \<and>
      list_all2 (slot_for s s' dots names) [0..<k] slots \<and>
      frame s s' \<and> symtab_ok s' \<and> ppstack s' = map snd slots @ ppstack s \<and>
      visited s' = visited s @ rev [0..<k] \<and>
      distinct (map snd slots) \<and> (\<forall>slot\<in>set slots. \<exists>a. snd slot = Ref a \<and> nxt s \<le> a)"
  using assms
proof (induction k arbitrary: args s old)
  case 0
  then show ?case by (simp add: return_def frame_refl)
next
  case (Suc k)
  from Suc.prems(1) obtain a s1 where
    body: "make_call_body dots names k args s = (Inr a, s1)"
    and rest: "make_call_loop dots names k a s1 = (Inr r, s')"
    by (auto simp: seq_def split: prod.splits sum.splits)
  from body_frame [OF body] have fr1: "frame s s1" and vis1: "visited s1 = visited s @ [k]"
    by simp_all
  from body_result [OF body Suc.prems(2,4)] obtain dot e rho c tag where
    reads: "vector_elt s dots k = Some dot" "vector_elt s dot 0 = Some e"
      "vector_elt s dot 1 = Some rho" "string_elt s names k = Some c"
    and a: "a = Ref (Suc (nxt s))" and nx: "Suc (nxt s) < nxt s1"
    and prom: "heap s1 (nxt s) = PromNode e rho R_UnboundValue"
    and cell: "heap s1 (Suc (nxt s)) = ListNode (Ref (nxt s)) args tag"
    and tag: "is_symbol s1 tag (R_CHAR c)" and ok1: "symtab_ok s1"
    and pp1: "ppstack s1 = Ref (nxt s) # ppstack s"
    by blast
  have pl1: "pairlist s1 a ((tag, Ref (nxt s)) # old)"
    using frame_pairlist [OF fr1 Suc.prems(6)] a nx cell by simp
  from Suc.IH [OF rest ok1 frame_valid [OF fr1 Suc.prems(3)] frame_valid [OF fr1 Suc.prems(4)]
      frame_elems_valid [OF fr1 Suc.prems(3,5)] pl1]
  obtain slots where pl: "pairlist s' r (slots @ (tag, Ref (nxt s)) # old)"
    and sl: "list_all2 (slot_for s1 s' dots names) [0..<k] slots"
    and fr2: "frame s1 s'" and ok': "symtab_ok s'"
    and pp': "ppstack s' = map snd slots @ ppstack s1"
    and vis': "visited s' = visited s1 @ rev [0..<k]"
    and dist: "distinct (map snd slots)"
    and above: "\<forall>slot\<in>set slots. \<exists>a. snd slot = Ref a \<and> nxt s1 \<le> a"
    by blast
  have same: "slot_for s1 s' dots names = slot_for s s' dots names"
    by (simp add: slot_for_def fun_eq_iff frame_arg_spec [OF fr1 Suc.prems(3,4,5)])
  have new: "slot_for s s' dots names k (tag, Ref (nxt s))"
  proof -
    have "is_promise s1 (Ref (nxt s)) e rho"
      using prom nx by (simp add: is_promise_def)
    then have "slot_for s s1 dots names k (tag, Ref (nxt s))"
      using reads tag by (simp add: slot_for_def arg_spec_def arg_slot_def)
    then show ?thesis using fr2 by (rule frame_slot_for [rotated])
  qed
  let ?slots = "slots @ [(tag, Ref (nxt s))]"
  have "pairlist s' r (?slots @ old)" using pl by simp
  moreover have "list_all2 (slot_for s s' dots names) [0..<Suc k] ?slots"
    using sl new unfolding same by (simp add: list_all2_appendI)
  moreover have "frame s s'" using fr1 fr2 by (rule frame_trans)
  moreover have "ppstack s' = map snd ?slots @ ppstack s" using pp' pp1 by simp
  moreover have "visited s' = visited s @ rev [0..<Suc k]" using vis' vis1 by simp
  moreover have "distinct (map snd ?slots)"
    using dist above nx by auto
  moreover have "\<forall>slot\<in>set ?slots. \<exists>a. snd slot = Ref a \<and> nxt s \<le> a"
    using above nx by auto
  ultimately show ?case using ok' by blast
qed

lemma arg_okD:
  assumes "arg_ok s dots names i"
  shows "\<exists>dot e rho c. vector_elt s dots i = Some dot \<and> vector_elt s dot 0 = Some e \<and>
      vector_elt s dot 1 = Some rho \<and> string_elt s names i = Some c \<and>
      R_CHAR c \<noteq> [] \<and> length (R_CHAR c) \<le> MAXIDSIZE"
  using assms
  by (auto simp: arg_ok_def arg_spec_def split: option.splits)

lemma frame_arg_ok:
  assumes "frame s s'" and "valid s dots" and "valid s names" and "elems_valid s dots"
  shows "arg_ok s' dots names i = arg_ok s dots names i"
  by (simp add: arg_ok_def frame_arg_spec [OF assms])

lemma loop_total:
  assumes "\<forall>i<k. arg_ok s dots names i"
    and "valid s dots" and "valid s names" and "elems_valid s dots"
  shows "\<exists>r s'. make_call_loop dots names k args s = (Inr r, s')"
  using assms
proof (induction k arbitrary: args s)
  case 0
  then show ?case by (simp add: return_def)
next
  case (Suc k)
  from Suc.prems(1) have "arg_ok s dots names k" by simp
  from arg_okD [OF this] obtain dot e rho c where
    "vector_elt s dots k = Some dot" "vector_elt s dot 0 = Some e"
    "vector_elt s dot 1 = Some rho" "string_elt s names k = Some c"
    "R_CHAR c \<noteq> []" "length (R_CHAR c) \<le> MAXIDSIZE"
    by blast
  from body_total [OF this(1-4) Suc.prems(3) this(5,6)] obtain a s1 where
    body: "make_call_body dots names k args s = (Inr a, s1)" by blast
  from body_frame [OF body] have fr: "frame s s1" by simp
  have "\<forall>i<k. arg_ok s1 dots names i"
    using Suc.prems(1) by (simp add: frame_arg_ok [OF fr Suc.prems(2,3,4)])
  from Suc.IH [OF this frame_valid [OF fr Suc.prems(2)] frame_valid [OF fr Suc.prems(3)]
      frame_elems_valid [OF fr Suc.prems(2,4)]]
  obtain r s' where "make_call_loop dots names k a s1 = (Inr r, s')" by blast
  with body show ?case by (simp add: seq_def)
qed

lemma body_outcome:
  "make_call_body dots names i args s = (r, s') \<Longrightarrow>
     (case r of Inr _ \<Rightarrow> \<exists>x. ppstack s' = x # ppstack s | Inl e \<Rightarrow> e \<in> set host_errors)"
  unfolding make_call_body_def lazy_to_promise_def host_errors_def
  by (auto simp: prim_defs
      split: option.splits if_splits sum.splits prod.splits sexp.splits node.splits)

lemma loop_effect:
  "make_call_loop dots names k args s = (r, s') \<Longrightarrow>
     frame s s' \<and>
     (case r of
        Inr _ \<Rightarrow> visited s' = visited s @ rev [0..<k] \<and>
          (\<exists>pushed. length pushed = k \<and> ppstack s' = pushed @ ppstack s)
      | Inl e \<Rightarrow> e \<in> set host_errors \<and> (\<exists>j<k. visited s' = visited s @ rev [j..<k]))"
proof (induction k arbitrary: args s)
  case 0
  then show ?case by (auto simp: return_def frame_refl)
next
  case (Suc k)
  obtain r1 s1 where body: "make_call_body dots names k args s = (r1, s1)"
    by (cases "make_call_body dots names k args s")
  from body_frame [OF body] have fr1: "frame s s1" and vis1: "visited s1 = visited s @ [k]"
    by simp_all
  show ?case
  proof (cases r1)
    case (Inl e)
    with body Suc.prems have "r = Inl e" "s' = s1" by (simp_all add: seq_def)
    moreover from body_outcome [OF body] Inl have "e \<in> set host_errors" by simp
    moreover have "visited s1 = visited s @ rev [k..<Suc k]" using vis1 by simp
    ultimately show ?thesis using fr1 by auto
  next
    case (Inr a)
    with body Suc.prems have rest: "make_call_loop dots names k a s1 = (r, s')"
      by (simp add: seq_def)
    from body_outcome [OF body] Inr obtain x where pp1: "ppstack s1 = x # ppstack s" by auto
    from Suc.IH [OF rest] have fr2: "frame s1 s'"
      and out: "case r of
        Inr _ \<Rightarrow> visited s' = visited s1 @ rev [0..<k] \<and>
          (\<exists>pushed. length pushed = k \<and> ppstack s' = pushed @ ppstack s1)
      | Inl e \<Rightarrow> e \<in> set host_errors \<and> (\<exists>j<k. visited s' = visited s1 @ rev [j..<k])"
      by simp_all
    have "frame s s'" using fr1 fr2 by (rule frame_trans)
    moreover have "case r of
        Inr _ \<Rightarrow> visited s' = visited s @ rev [0..<Suc k] \<and>
          (\<exists>pushed. length pushed = Suc k \<and> ppstack s' = pushed @ ppstack s)
      | Inl e \<Rightarrow> e \<in> set host_errors \<and> (\<exists>j<Suc k. visited s' = visited s @ rev [j..<Suc k])"
    proof (cases r)
      case (Inl e)
      with out obtain j where "e \<in> set host_errors" "j < k"
        "visited s' = visited s1 @ rev [j..<k]" by auto
      then have "j < Suc k \<and> visited s' = visited s @ rev [j..<Suc k]"
        using vis1 by simp
      with Inl \<open>e \<in> set host_errors\<close> show ?thesis by auto
    next
      case (Inr res)
      with out obtain pushed where "visited s' = visited s1 @ rev [0..<k]"
        "length pushed = k" "ppstack s' = pushed @ ppstack s1" by auto
      then have "visited s' = visited s @ rev [0..<Suc k]"
        "length (pushed @ [x]) = Suc k" "ppstack s' = (pushed @ [x]) @ ppstack s"
        using vis1 pp1 by simp_all
      with Inr show ?thesis by (simp del: upt_Suc append_assoc)
    qed
    ultimately show ?thesis by simp
  qed
qed

subsection \<open>The routine\<close>

lemma make_call_rejects:
  "\<not> checks_pass s fn dots \<Longrightarrow> make_call fn dots s = (Inl (first_failed_check s fn dots), s)"
  by (auto simp: make_call_def checks_pass_def first_failed_check_def error_def)

lemma make_call_accepts:
  "checks_pass s fn dots \<Longrightarrow> make_call fn dots s =
     (if Rf_length s dots = 0 then LCONS fn R_NilValue s
      else seq (make_call_loop dots (GET_NAMES s dots) (Rf_length s dots) R_NilValue) (\<lambda>args.
           seq (UNPROTECT (Rf_length s dots)) (\<lambda>_. LCONS fn args)) s)"
  by (auto simp: make_call_def checks_pass_def Let_def)

lemma first_failed_check_validation: "first_failed_check s fn dots \<in> set validation_errors"
  by (simp add: first_failed_check_def validation_errors_def)

lemma make_call_effect:
  assumes "make_call fn dots s = (r, s')"
  shows "frame s s' \<and>
     (case r of
        Inr _ \<Rightarrow> checks_pass s fn dots \<and> ppstack s' = ppstack s \<and>
          visited s' = visited s @ rev [0..<Rf_length s dots]
      | Inl e \<Rightarrow>
          if checks_pass s fn dots then
            e \<in> set host_errors \<and>
            (\<exists>j<Rf_length s dots. visited s' = visited s @ rev [j..<Rf_length s dots])
          else e = first_failed_check s fn dots \<and> s' = s)"
proof (cases "checks_pass s fn dots")
  case False
  with assms show ?thesis by (auto simp: make_call_rejects frame_refl)
next
  case True
  note acc = make_call_accepts [OF True]
  let ?n = "Rf_length s dots"
  show ?thesis
  proof (cases "?n = 0")
    case True
    with assms acc have "LCONS fn R_NilValue s = (r, s')" by simp
    then show ?thesis using True \<open>checks_pass s fn dots\<close>
      by (auto simp: LCONS_def alloc_def frame_def)
  next
    case False
    obtain r1 s1 where loop: "make_call_loop dots (GET_NAMES s dots) ?n R_NilValue s = (r1, s1)"
      by (cases "make_call_loop dots (GET_NAMES s dots) ?n R_NilValue s")
    note eff = loop_effect [OF loop]
    show ?thesis
    proof (cases r1)
      case (Inl e)
      with assms acc False loop have "r = Inl e" "s' = s1" by (simp_all add: seq_def)
      with eff Inl True show ?thesis by simp
    next
      case (Inr args)
      with eff obtain pushed where fr1: "frame s s1"
        and vis: "visited s1 = visited s @ rev [0..<?n]"
        and pp: "length pushed = ?n" "ppstack s1 = pushed @ ppstack s" by auto
      have un: "UNPROTECT ?n s1 = (Inr (), s1\<lparr>ppstack := ppstack s\<rparr>)"
        using pp by (simp add: UNPROTECT_def)
      from assms acc False loop Inr un
      have "LCONS fn args (s1\<lparr>ppstack := ppstack s\<rparr>) = (r, s')" by (simp add: seq_def)
      then have "\<exists>c. r = Inr c" "frame (s1\<lparr>ppstack := ppstack s\<rparr>) s'"
        "ppstack s' = ppstack s" "visited s' = visited s1"
        by (auto simp: LCONS_def alloc_def frame_def)
      moreover have "frame s (s1\<lparr>ppstack := ppstack s\<rparr>)"
        using fr1 by (simp add: frame_def)
      ultimately show ?thesis using vis True by (auto intro: frame_trans)
    qed
  qed
qed

lemma make_call_result:
  assumes "make_call fn dots s = (Inr call, s')" and "wf_input s dots"
  shows "\<exists>c args slots. call = Ref c \<and> c < nxt s' \<and> heap s' c = LangNode fn args R_NilValue \<and>
      pairlist s' args slots \<and>
      list_all2 (slot_for s s' dots (GET_NAMES s dots)) [0..<Rf_length s dots] slots \<and>
      distinct (map snd slots)"
proof -
  from make_call_effect [OF assms(1)] have pass: "checks_pass s fn dots" by simp
  note acc = make_call_accepts [OF pass]
  let ?n = "Rf_length s dots" and ?names = "GET_NAMES s dots"
  from assms(2) have wf: "symtab_ok s" "valid s dots" "valid s ?names" "elems_valid s dots"
    by (simp_all add: wf_input_def)
  show ?thesis
  proof (cases "?n = 0")
    case True
    with assms(1) acc have "LCONS fn R_NilValue s = (Inr call, s')" by simp
    then have "call = Ref (nxt s)" "nxt s < nxt s'"
      "heap s' (nxt s) = LangNode fn R_NilValue R_NilValue"
      by (auto simp: LCONS_def alloc_def)
    then show ?thesis using True by simp
  next
    case False
    from assms(1) acc False obtain args s1 s2 where
      loop: "make_call_loop dots ?names ?n R_NilValue s = (Inr args, s1)"
      and un: "UNPROTECT ?n s1 = (Inr (), s2)"
      and lc: "LCONS fn args s2 = (Inr call, s')"
      by (auto simp: seq_def split: prod.splits sum.splits)
    have "pairlist s R_NilValue []" by simp
    from loop_result [OF loop wf this] obtain slots where
      pl: "pairlist s1 args slots"
      and sl: "list_all2 (slot_for s s1 dots ?names) [0..<?n] slots"
      and dist: "distinct (map snd slots)"
      by auto
    from un have s2: "frame s1 s2"
      by (auto simp: UNPROTECT_def error_def frame_def split: if_splits)
    from lc have call: "call = Ref (nxt s2)" "nxt s2 < nxt s'"
      "heap s' (nxt s2) = LangNode fn args R_NilValue" and s': "frame s2 s'"
      by (auto simp: LCONS_def alloc_def frame_def)
    have fr: "frame s1 s'" using s2 s' by (rule frame_trans)
    have "pairlist s' args slots" using fr pl by (rule frame_pairlist)
    moreover have "list_all2 (slot_for s s' dots ?names) [0..<?n] slots"
      using sl by (rule list_all2_mono) (rule frame_slot_for [OF fr])
    ultimately show ?thesis using call dist by blast
  qed
qed

lemma make_call_total:
  assumes "checks_pass s fn dots" and "args_ok s dots" and "wf_input s dots"
  shows "\<exists>call s'. make_call fn dots s = (Inr call, s')"
proof -
  note acc = make_call_accepts [OF assms(1)]
  let ?n = "Rf_length s dots" and ?names = "GET_NAMES s dots"
  from assms(3) have wf: "valid s dots" "valid s ?names" "elems_valid s dots"
    by (simp_all add: wf_input_def)
  show ?thesis
  proof (cases "?n = 0")
    case True
    then show ?thesis using acc by (simp add: LCONS_def alloc_def)
  next
    case False
    from assms(2) have "\<forall>i<?n. arg_ok s dots ?names i"
      by (simp add: args_ok_def list_all_iff)
    from loop_total [OF this wf] obtain args s1 where
      loop: "make_call_loop dots ?names ?n R_NilValue s = (Inr args, s1)" by blast
    from loop_effect [OF loop] obtain pushed where
      "length pushed = ?n" "ppstack s1 = pushed @ ppstack s" by auto
    then have "UNPROTECT ?n s1 = (Inr (), s1\<lparr>ppstack := ppstack s\<rparr>)"
      by (simp add: UNPROTECT_def)
    with loop False show ?thesis using acc by (simp add: seq_def LCONS_def alloc_def)
  qed
qed







subsection \<open>Refinement of the abstract description\<close>

lemma collect_snoc:
  "collect (xs @ [x]) =
     (case x of Inl e \<Rightarrow> Inl e
      | Inr y \<Rightarrow> (case collect xs of Inl e \<Rightarrow> Inl e | Inr ys \<Rightarrow> Inr (ys @ [y])))"
  by (induction xs) (auto split: sum.splits)

lemma elem_check_arg_ok:
  "(\<exists>sp. elem_check (elem_view s dots names i) = Inr sp) = arg_ok s dots names i"
  by (cases "(elem_view s dots names i)" rule: elem_check.cases)
    (auto simp: elem_view_def arg_ok_def arg_spec_def split: option.splits)

lemma elem_check_okI: "elem_check (elem_view s dots names i) = Inr sp \<Longrightarrow> arg_ok s dots names i"
  using elem_check_arg_ok by blast

lemma elem_check_arg_spec:
  "elem_check (elem_view s dots names i) = Inr sp \<Longrightarrow> arg_spec s dots names i = Some sp"
  by (cases "(elem_view s dots names i)" rule: elem_check.cases)
    (auto simp: elem_view_def arg_spec_def split: option.splits if_splits)

lemma body_error:
  assumes "valid s names" and "elem_check (elem_view s dots names i) = Inl e"
  shows "fst (make_call_body dots names i args s) = Inl e"
  using assms(2) unfolding body_eq [OF assms(1)] body_spec_def
  by (cases "(elem_view s dots names i)" rule: elem_check.cases)
    (auto simp: elem_view_def Let_def split: option.splits if_splits)

lemma frame_elem_view:
  assumes "frame s s'" and "valid s dots" and "valid s names" and "elems_valid s dots"
  shows "elem_view s' dots names i = elem_view s dots names i"
proof (cases "vector_elt s dots i")
  case None
  then show ?thesis
    by (simp add: elem_view_def frame_vector_elt [OF assms(1,2)] frame_string_elt [OF assms(1,3)])
next
  case (Some dot)
  then have "valid s dot" using assms(4) by (simp add: elems_validD)
  with Some show ?thesis
    by (simp add: elem_view_def frame_vector_elt [OF assms(1)] assms(2)
        frame_string_elt [OF assms(1,3)])
qed

lemma loop_error:
  assumes "collect (map (\<lambda>i. elem_check (elem_view s dots names i)) [0..<k]) = Inl e"
    and "valid s dots" and "valid s names" and "elems_valid s dots"
  shows "fst (make_call_loop dots names k args s) = Inl e"
  using assms
proof (induction k arbitrary: args s)
  case 0
  then show ?case by simp
next
  case (Suc k)
  show ?case
  proof (cases "elem_check (elem_view s dots names k)")
    case (Inl e')
    with Suc.prems(1) have "e' = e" by (simp add: collect_snoc)
    with Inl body_error [OF Suc.prems(3)] have "fst (make_call_body dots names k args s) = Inl e"
      by simp
    then show ?thesis by (auto simp: seq_def split: prod.splits sum.splits)
  next
    case (Inr sp)
    with Suc.prems(1) have rest:
      "collect (map (\<lambda>i. elem_check (elem_view s dots names i)) [0..<k]) = Inl e"
      by (simp add: collect_snoc split: sum.splits)
    from Inr have "arg_ok s dots names k" using elem_check_arg_ok by blast
    from arg_okD [OF this] obtain dot e1 rho c where
      "vector_elt s dots k = Some dot" "vector_elt s dot 0 = Some e1"
      "vector_elt s dot 1 = Some rho" "string_elt s names k = Some c"
      "R_CHAR c \<noteq> []" "length (R_CHAR c) \<le> MAXIDSIZE"
      by blast
    from body_total [OF this(1-4) Suc.prems(3) this(5,6)] obtain a s1 where
      body: "make_call_body dots names k args s = (Inr a, s1)" by blast
    from body_frame [OF body] have fr: "frame s s1" by simp
    have "collect (map (\<lambda>i. elem_check (elem_view s1 dots names i)) [0..<k]) = Inl e"
      using rest by (simp add: frame_elem_view [OF fr Suc.prems(2,3,4)])
    from Suc.IH [OF this frame_valid [OF fr Suc.prems(2)] frame_valid [OF fr Suc.prems(3)]
      frame_elems_valid [OF fr Suc.prems(2,4)]]
    have "fst (make_call_loop dots names k a s1) = Inl e" .
    with body show ?thesis by (simp add: seq_def)
  qed
qed

lemma collect_Inr:
  "collect xs = Inr ys \<Longrightarrow> length ys = length xs \<and> (\<forall>i<length xs. xs ! i = Inr (ys ! i))"
proof (induction xs arbitrary: ys)
  case Nil
  then show ?case by simp
next
  case (Cons x xs)
  then show ?case
    by (auto simp: nth_Cons split: sum.splits nat.splits)
qed

lemma pairlist_read_args:
  "pairlist s x slots \<Longrightarrow> length slots \<le> k \<Longrightarrow> read_args k s x = Some slots"
proof (induction slots arbitrary: k x)
  case Nil
  then show ?case by (cases k) simp_all
next
  case (Cons c cs)
  then obtain k' where "k = Suc k'" by (cases k) auto
  with Cons show ?case
    by (auto split: sexp.splits node.splits)
qed

lemma is_promise_view: "is_promise s x e rho \<Longrightarrow> promise_view s x = Some (e, rho, R_UnboundValue)"
  by (cases x) (simp_all add: is_promise_def promise_view_def)

lemma is_symbol_name: "is_symbol s x name \<Longrightarrow> symbol_name s x = Some name"
  by (cases x) (simp_all add: is_symbol_def symbol_name_def)

lemma slot_for_view:
  assumes "slot_for s s' dots names i slot" and "arg_spec s dots names i = Some (e, rho, name)"
  shows "(case slot of (tag, car) \<Rightarrow> (symbol_name s' tag, promise_view s' car)) =
     (Some name, Some (e, rho, R_UnboundValue))"
proof -
  obtain tag car where slot: "slot = (tag, car)" by (cases slot)
  with assms have "is_promise s' car e rho" "is_symbol s' tag name"
    by (simp_all add: slot_for_def arg_slot_def)
  then show ?thesis using slot by (simp add: is_promise_view is_symbol_name)
qed

lemma make_call_refines:
  assumes "wf_input s dots"
  shows "outcome_view (Rf_length s dots) (make_call fn dots s) =
     Some (make_call_spec (input_view s fn dots))"
proof (cases "checks_pass s fn dots")
  case False
  then show ?thesis
    by (auto simp: make_call_rejects first_failed_check_def checks_pass_def outcome_view_def
        make_call_spec_def input_view_def)
next
  case True
  let ?n = "Rf_length s dots" and ?names = "GET_NAMES s dots"
  let ?checks = "map (\<lambda>i. elem_check (elem_view s dots ?names i)) [0..<?n]"
  from assms have wf: "valid s dots" "valid s ?names" "elems_valid s dots"
    by (simp_all add: wf_input_def)
  have spec: "make_call_spec (input_view s fn dots) =
      (case collect ?checks of Inl e \<Rightarrow> Inl e
       | Inr args \<Rightarrow>
           Inr (fn, map (\<lambda>(e, rho, name). (Some name, Some (e, rho, R_UnboundValue))) args))"
    using True
    by (auto simp: make_call_spec_def input_view_def checks_pass_def comp_def split: sum.splits)
  show ?thesis
  proof (cases "collect ?checks")
    case (Inl e)
    then have "?n \<noteq> 0" by (cases "?n = 0") simp_all
    moreover from loop_error [OF Inl wf]
    have "fst (make_call_loop dots ?names ?n R_NilValue s) = Inl e" .
    ultimately have "fst (make_call fn dots s) = Inl e"
      by (auto simp: make_call_accepts [OF True] seq_def split: prod.splits sum.splits)
    with Inl spec show ?thesis
      by (auto simp: outcome_view_def split: prod.splits)
  next
    case (Inr specs)
    from collect_Inr [OF Inr] have len: "length specs = ?n"
      and each: "\<forall>i<?n. elem_check (elem_view s dots ?names i) = Inr (specs ! i)"
      by simp_all
    have "args_ok s dots"
      unfolding args_ok_def list_all_iff using each by (auto intro: elem_check_okI)
    from make_call_total [OF True this assms] obtain call s' where
      run: "make_call fn dots s = (Inr call, s')" by blast
    from make_call_result [OF run assms] obtain c args slots where
      call: "call = Ref c" "heap s' c = LangNode fn args R_NilValue"
      and pl: "pairlist s' args slots"
      and sl: "list_all2 (slot_for s s' dots ?names) [0..<?n] slots"
      by blast
    from sl have slen: "length slots = ?n" by (auto dest: list_all2_lengthD)
    have rd: "read_args ?n s' args = Some slots"
      using pl slen by (simp add: pairlist_read_args)
    have "map (\<lambda>(tag, car). (symbol_name s' tag, promise_view s' car)) slots =
        map (\<lambda>(e, rho, name). (Some name, Some (e, rho, R_UnboundValue))) specs"
    proof (rule nth_equalityI)
      show "length (map (\<lambda>(tag, car). (symbol_name s' tag, promise_view s' car)) slots) =
          length (map (\<lambda>(e, rho, name). (Some name, Some (e, rho, R_UnboundValue))) specs)"
        using slen len by simp
    next
      fix i
      assume "i < length (map (\<lambda>(tag, car). (symbol_name s' tag, promise_view s' car)) slots)"
      then have i: "i < ?n" using slen by simp
      obtain e rho name where sp: "specs ! i = (e, rho, name)" by (cases "specs ! i")
      from each i sp have "arg_spec s dots ?names i = Some (e, rho, name)"
        by (simp add: elem_check_arg_spec)
      moreover from sl i have "slot_for s s' dots ?names i (slots ! i)"
        by (simp add: list_all2_conv_all_nth)
      ultimately have "(case slots ! i of (tag, car) \<Rightarrow> (symbol_name s' tag, promise_view s' car)) =
          (Some name, Some (e, rho, R_UnboundValue))"
        by (rule slot_for_view [rotated])
      then show "map (\<lambda>(tag, car). (symbol_name s' tag, promise_view s' car)) slots ! i =
          map (\<lambda>(e, rho, name). (Some name, Some (e, rho, R_UnboundValue))) specs ! i"
        using i slen len sp by simp
    qed
    with rd call have "call_view ?n s' call =
        Some (fn, map (\<lambda>(e, rho, name). (Some name, Some (e, rho, R_UnboundValue))) specs)"
      by (simp add: call_view_def)
    with run Inr spec show ?thesis by (simp add: outcome_view_def)
  qed
qed

subsection \<open>Access to the promises\<close>

lemma force_step:
  assumes inv: "cells_inv ev proms specs seen s" and dist: "distinct proms"
    and ev: "\<forall>e rho. ev e rho \<noteq> R_UnboundValue" and i: "i < length proms"
  shows "\<exists>s'. force_promise ev (proms ! i) (s, log) =
      (Some (ev (fst (specs ! i)) (snd (specs ! i))), s',
       log @ (if i \<in> set seen then [] else [specs ! i])) \<and>
      cells_inv ev proms specs (i # seen) s'"
proof -
  from inv i have pv: "promise_view s (proms ! i) =
      Some (fst (specs ! i), snd (specs ! i),
            if i \<in> set seen then ev (fst (specs ! i)) (snd (specs ! i)) else R_UnboundValue)"
    by (simp add: cells_inv_def)
  then obtain a where a: "proms ! i = Ref a"
    by (cases "proms ! i") (simp_all add: promise_view_def)
  show ?thesis
  proof (cases "i \<in> set seen")
    case True
    with pv a ev have "force_promise ev (proms ! i) (s, log) =
        (Some (ev (fst (specs ! i)) (snd (specs ! i))), s, log)"
      by (auto simp: force_promise_def promise_view_def split: node.splits)
    moreover have "cells_inv ev proms specs (i # seen) s"
      using inv True by (auto simp: cells_inv_def)
    ultimately show ?thesis using True by simp
  next
    case False
    let ?e = "fst (specs ! i)" and ?rho = "snd (specs ! i)"
    let ?s' = "s\<lparr>heap := (heap s)(a := PromNode ?e ?rho (ev ?e ?rho))\<rparr>"
    from False pv a have "force_promise ev (proms ! i) (s, log) =
        (Some (ev ?e ?rho), ?s', log @ [(?e, ?rho)])"
      by (auto simp: force_promise_def promise_view_def split: node.splits)
    moreover have "cells_inv ev proms specs (i # seen) ?s'"
      unfolding cells_inv_def
    proof (intro allI impI)
      fix j
      assume j: "j < length proms"
      show "promise_view ?s' (proms ! j) =
          Some (fst (specs ! j), snd (specs ! j),
                if j \<in> set (i # seen) then ev (fst (specs ! j)) (snd (specs ! j))
                else R_UnboundValue)"
      proof (cases "j = i")
        case True
        then show ?thesis using a by (simp add: promise_view_def)
      next
        case False
        with dist i j have "proms ! j \<noteq> proms ! i" by (simp add: nth_eq_iff_index_eq)
        then have "proms ! j \<noteq> Ref a" using a by simp
        then have "promise_view ?s' (proms ! j) = promise_view s (proms ! j)"
          by (cases "proms ! j") (simp_all add: promise_view_def)
        with inv j False show ?thesis by (simp add: cells_inv_def)
      qed
    qed
    ultimately show ?thesis using False by auto
  qed
qed

lemma force_all_cells:
  assumes "cells_inv ev proms specs seen s" and "distinct proms"
    and "\<forall>e rho. ev e rho \<noteq> R_UnboundValue" and "\<forall>i\<in>set accesses. i < length proms"
  shows "\<exists>s'. force_all ev (map ((!) proms) accesses) (s, log) =
      (map (\<lambda>i. Some (ev (fst (specs ! i)) (snd (specs ! i)))) accesses, s',
       log @ map ((!) specs) (first_uses seen accesses))"
  using assms(1,4)
proof (induction accesses arbitrary: seen s log)
  case Nil
  then show ?case by simp
next
  case (Cons i js)
  from Cons.prems(2) have i: "i < length proms" by simp
  from force_step [OF Cons.prems(1) assms(2,3) i, of log] obtain s1 where
    step: "force_promise ev (proms ! i) (s, log) =
      (Some (ev (fst (specs ! i)) (snd (specs ! i))), s1,
       log @ (if i \<in> set seen then [] else [specs ! i]))"
    and inv1: "cells_inv ev proms specs (i # seen) s1"
    by blast
  from Cons.prems(2) have rest: "\<forall>j\<in>set js. j < length proms" by simp
  show ?case
  proof (cases "i \<in> set seen")
    case True
    then have "cells_inv ev proms specs seen s1"
      using inv1 by (auto simp: cells_inv_def)
    from Cons.IH [OF this rest, of log] step True show ?thesis by auto
  next
    case False
    from Cons.IH [OF inv1 rest, of "log @ [specs ! i]"] step False show ?thesis by auto
  qed
qed

lemma first_uses_fresh: "set (first_uses seen js) \<inter> set seen = {}"
proof (induction js arbitrary: seen)
  case Nil
  then show ?case by simp
next
  case (Cons i js)
  from Cons.IH [of seen] Cons.IH [of "i # seen"] show ?case by auto
qed

lemma first_uses_distinct: "distinct (first_uses seen js)"
proof (induction js arbitrary: seen)
  case Nil
  then show ?case by simp
next
  case (Cons i js)
  from first_uses_fresh [of "i # seen" js] Cons.IH show ?case by auto
qed

lemma elem_check_InrD:
  assumes "elem_check (elem_view s dots names i) = Inr (e, rho, name)"
  shows "\<exists>dot c. vector_elt s dots i = Some dot \<and> vector_elt s dot 0 = Some e \<and>
      vector_elt s dot 1 = Some rho \<and> string_elt s names i = Some c \<and> R_CHAR c = name \<and>
      name \<noteq> [] \<and> length name \<le> MAXIDSIZE"
  using assms
  by (cases "(elem_view s dots names i)" rule: elem_check.cases)
    (auto simp: elem_view_def split: option.splits if_splits)

lemma make_call_returns_view:
  assumes "make_call fn dots s = (Inr call, s')" and "wf_input s dots"
  shows "\<exists>specs. length specs = Rf_length s dots \<and>
      (\<forall>i<Rf_length s dots.
         elem_check (elem_view s dots (GET_NAMES s dots) i) = Inr (specs ! i)) \<and>
      call_view (Rf_length s dots) s' call =
        Some (fn, map (\<lambda>(e, rho, name). (Some name, Some (e, rho, R_UnboundValue))) specs)"
proof -
  let ?n = "Rf_length s dots"
  let ?checks = "map (\<lambda>i. elem_check (elem_view s dots (GET_NAMES s dots) i)) [0..<?n]"
  from make_call_effect [OF assms(1)] have pass: "checks_pass s fn dots" by simp
  from make_call_refines [OF assms(2), of fn] assms(1)
  have view: "map_option Inr (call_view ?n s' call) = Some (make_call_spec (input_view s fn dots))"
    by (simp add: outcome_view_def)
  have spec: "make_call_spec (input_view s fn dots) =
      (case collect ?checks of Inl e \<Rightarrow> Inl e
       | Inr args \<Rightarrow>
           Inr (fn, map (\<lambda>(e, rho, name). (Some name, Some (e, rho, R_UnboundValue))) args))"
    using pass
    by (auto simp: make_call_spec_def input_view_def checks_pass_def comp_def split: sum.splits)
  from view spec obtain specs where col: "collect ?checks = Inr specs"
    and cv: "call_view ?n s' call =
      Some (fn, map (\<lambda>(e, rho, name). (Some name, Some (e, rho, R_UnboundValue))) specs)"
    by (cases "collect ?checks") auto
  from collect_Inr [OF col] have "length specs = ?n"
    "\<forall>i<?n. elem_check (elem_view s dots (GET_NAMES s dots) i) = Inr (specs ! i)"
    by simp_all
  with cv show ?thesis by blast
qed

lemma validation_not_host: "e \<in> set host_errors \<Longrightarrow> e \<notin> set validation_errors"
  by (auto simp: host_errors_def validation_errors_def)

lemma arg_spec_reads:
  assumes "arg_spec s dots names i = Some (e, rho, name)"
  shows "\<exists>dot. vector_elt s dots i = Some dot \<and> vector_elt s dot 0 = Some e \<and>
      vector_elt s dot 1 = Some rho"
  using assms by (auto simp: arg_spec_def split: option.splits)



subsection \<open>The example states\<close>

lemma state0_run: "make_call (Ref 0) (Ref 8) state0 = (Inr (Ref 19), snd (make_call (Ref 0) (Ref 8) state0))"
proof -
  have "fst (make_call (Ref 0) (Ref 8) state0) = Inr (Ref 19)" by code_simp
  then show ?thesis by (simp add: prod_eq_iff)
qed

lemma state0_wf: "wf_input state0 (Ref 8)"
  by code_simp

lemma state0_checks: "checks_pass state0 (Ref 0) (Ref 8)"
  by code_simp

lemma state2_run:
  "make_call (Ref 0) (Ref 14) state2 =
     (Inl (RError ''variable names are limited to 10000 bytes''),
      state2\<lparr>heap := (heap state2)(15 := PromNode (Ref 3) (Ref 1) R_UnboundValue,
                                   16 := ListNode (Ref 15) R_NilValue R_NilValue),
             nxt := 17, ppstack := [Ref 15], visited := [1]\<rparr>)"
  by (simp add: make_call_def make_call_body_def lazy_to_promise_def prim_defs TYPEOF_def
      inherits_def Rf_length_def GET_NAMES_def vector_elt_def string_elt_def state2_def heap0_def
      MAXIDSIZE_def numeral_2_eq_2)

lemma state2_checks: "checks_pass state2 (Ref 0) (Ref 14)"
  by (simp add: checks_pass_def TYPEOF_def inherits_def state2_def heap0_def)

section \<open>The claims\<close>

subsection \<open>C1: the call and its promises\<close>

text \<open>
  C1, as stated, fails. Counterexample: in \<open>state2\<close> the function is the symbol \<^verbatim>\<open>f\<close> and
  \<open>dots\<close> (cell 14) is a list of class \<^verbatim>\<open>lazy_dots\<close> whose two elements are lists of an
  expression and an environment, so the input is as C1 describes it; the name of the
  second element is longer than the host's limit on identifiers. The routine returns no
  call: \<^verbatim>\<open>Rf_install\<close> refuses the name. The same happens in \<open>state0\<close> with cell 10, where the
  second element has the empty name.
\<close>

theorem make_call_names_refused:
  "lazy_dots_input state2 (Ref 0) (Ref 14) \<and>
   fst (make_call (Ref 0) (Ref 14) state2) =
     Inl (RError ''variable names are limited to 10000 bytes'') \<and>
   lazy_dots_input state0 (Ref 0) (Ref 10) \<and>
   fst (make_call (Ref 0) (Ref 10) state0) =
     Inl (RError ''attempt to use zero-length variable name'')"
proof -
  have "lazy_dots_input state2 (Ref 0) (Ref 14)"
    using state2_checks
    by (simp add: lazy_dots_input_def lazy_elem_def TYPEOF_def state2_def heap0_def)
  moreover have "lazy_dots_input state0 (Ref 0) (Ref 10) \<and>
      fst (make_call (Ref 0) (Ref 10) state0) =
        Inl (RError ''attempt to use zero-length variable name'')"
    by code_simp
  ultimately show ?thesis by (simp add: state2_run)
qed

text \<open>
  C1, amended. For every \<open>fn\<close> that is a symbol or a call and every well-formed \<open>dots\<close> of class
  \<^verbatim>\<open>lazy_dots\<close> whose every element is a list with (at least) the two components expression
  and environment and has, in the names attribute, a name that is not empty and not longer
  than 10000 bytes, \<^verbatim>\<open>make_call_\<close> returns a call node whose head is exactly \<open>fn\<close> and whose
  argument list has one slot per element; slot \<open>i\<close> holds an unforced promise whose expression
  is the first and whose environment is the second component of element \<open>i\<close>.
\<close>

theorem make_call_builds_promises:
  assumes "checks_pass s fn dots" and "args_ok s dots" and "wf_input s dots"
  shows "\<exists>call s' slots. make_call fn dots s = (Inr call, s') \<and>
      call_view (Rf_length s dots) s' call = Some (fn, slots) \<and>
      length slots = Rf_length s dots \<and>
      (\<forall>i<Rf_length s dots. \<exists>dot e rho.
         vector_elt s dots i = Some dot \<and> vector_elt s dot 0 = Some e \<and>
         vector_elt s dot 1 = Some rho \<and> snd (slots ! i) = Some (e, rho, R_UnboundValue))"
proof -
  let ?n = "Rf_length s dots"
  from make_call_total [OF assms] obtain call s' where
    run: "make_call fn dots s = (Inr call, s')" by blast
  from make_call_returns_view [OF run assms(3)] obtain specs where
    len: "length specs = ?n"
    and each: "\<forall>i<?n. elem_check (elem_view s dots (GET_NAMES s dots) i) = Inr (specs ! i)"
    and cv: "call_view ?n s' call =
      Some (fn, map (\<lambda>(e, rho, name). (Some name, Some (e, rho, R_UnboundValue))) specs)"
    by blast
  let ?slots = "map (\<lambda>(e, rho, name). (Some name, Some (e, rho, R_UnboundValue))) specs"
  have "\<exists>dot e rho. vector_elt s dots i = Some dot \<and> vector_elt s dot 0 = Some e \<and>
      vector_elt s dot 1 = Some rho \<and> snd (?slots ! i) = Some (e, rho, R_UnboundValue)"
    if i: "i < ?n" for i
  proof -
    obtain e rho name where sp: "specs ! i = (e, rho, name)" by (cases "specs ! i")
    with each i have "elem_check (elem_view s dots (GET_NAMES s dots) i) = Inr (e, rho, name)"
      by simp
    from elem_check_InrD [OF this] show ?thesis using sp i len by auto
  qed
  with run cv len show ?thesis by auto
qed

theorem make_call_builds_promises_witness:
  "checks_pass state0 (Ref 0) (Ref 8) \<and> args_ok state0 (Ref 8) \<and> wf_input state0 (Ref 8) \<and>
   (\<exists>call s' slots. make_call (Ref 0) (Ref 8) state0 = (Inr call, s') \<and>
      call_view (Rf_length state0 (Ref 8)) s' call = Some (Ref 0, slots) \<and>
      length slots = Rf_length state0 (Ref 8) \<and>
      (\<forall>i<Rf_length state0 (Ref 8). \<exists>dot e rho.
         vector_elt state0 (Ref 8) i = Some dot \<and> vector_elt state0 dot 0 = Some e \<and>
         vector_elt state0 dot 1 = Some rho \<and> snd (slots ! i) = Some (e, rho, R_UnboundValue)))"
proof -
  have ok: "args_ok state0 (Ref 8)" by code_simp
  from make_call_builds_promises [OF state0_checks ok state0_wf] state0_checks ok state0_wf show ?thesis by blast
qed

subsection \<open>C2: names and order\<close>

text \<open>
  C2. Whenever \<^verbatim>\<open>make_call_\<close> returns a call on a well-formed input, the argument list of
  the call has exactly as many slots as \<open>dots\<close> has elements; slot \<open>i\<close> holds the promise of
  element \<open>i\<close> (the order is kept) and is tagged with the symbol whose print name is entry
  \<open>i\<close> of the names attribute of \<open>dots\<close>.
\<close>

theorem make_call_slots_in_order:
  assumes "make_call fn dots s = (Inr call, s')" and "wf_input s dots"
  shows "\<exists>slots. call_view (Rf_length s dots) s' call = Some (fn, slots) \<and>
      length slots = Rf_length s dots \<and>
      (\<forall>i<Rf_length s dots. \<exists>dot e rho c.
         vector_elt s dots i = Some dot \<and> vector_elt s dot 0 = Some e \<and>
         vector_elt s dot 1 = Some rho \<and> string_elt s (GET_NAMES s dots) i = Some c \<and>
         slots ! i = (Some (R_CHAR c), Some (e, rho, R_UnboundValue)))"
proof -
  let ?n = "Rf_length s dots"
  from make_call_returns_view [OF assms] obtain specs where
    len: "length specs = ?n"
    and each: "\<forall>i<?n. elem_check (elem_view s dots (GET_NAMES s dots) i) = Inr (specs ! i)"
    and cv: "call_view ?n s' call =
      Some (fn, map (\<lambda>(e, rho, name). (Some name, Some (e, rho, R_UnboundValue))) specs)"
    by blast
  let ?slots = "map (\<lambda>(e, rho, name). (Some name, Some (e, rho, R_UnboundValue))) specs"
  have "\<exists>dot e rho c. vector_elt s dots i = Some dot \<and> vector_elt s dot 0 = Some e \<and>
      vector_elt s dot 1 = Some rho \<and> string_elt s (GET_NAMES s dots) i = Some c \<and>
      ?slots ! i = (Some (R_CHAR c), Some (e, rho, R_UnboundValue))"
    if i: "i < ?n" for i
  proof -
    obtain e rho name where sp: "specs ! i = (e, rho, name)" by (cases "specs ! i")
    with each i have "elem_check (elem_view s dots (GET_NAMES s dots) i) = Inr (e, rho, name)"
      by simp
    from elem_check_InrD [OF this] show ?thesis using sp i len by auto
  qed
  with cv len show ?thesis by auto
qed

theorem make_call_slots_in_order_witness:
  "fst (make_call (Ref 0) (Ref 8) state0) = Inr (Ref 19) \<and> wf_input state0 (Ref 8) \<and>
   (\<exists>slots. call_view (Rf_length state0 (Ref 8)) (snd (make_call (Ref 0) (Ref 8) state0)) (Ref 19) =
        Some (Ref 0, slots) \<and>
      length slots = Rf_length state0 (Ref 8) \<and>
      (\<forall>i<Rf_length state0 (Ref 8). \<exists>dot e rho c.
         vector_elt state0 (Ref 8) i = Some dot \<and> vector_elt state0 dot 0 = Some e \<and>
         vector_elt state0 dot 1 = Some rho \<and>
         string_elt state0 (GET_NAMES state0 (Ref 8)) i = Some c \<and>
         slots ! i = (Some (R_CHAR c), Some (e, rho, R_UnboundValue))))"
proof -
  have "fst (make_call (Ref 0) (Ref 8) state0) = Inr (Ref 19)" using state0_run by (simp add: prod_eq_iff)
  with make_call_slots_in_order [OF state0_run state0_wf] state0_wf show ?thesis by blast
qed

subsection \<open>C3: the validation errors\<close>

text \<open>
  C3, as stated, fails. Counterexample: in \<open>state2\<close> with \<open>dots\<close> at cell 14 all three checks
  pass, yet the routine ends in an error (of \<^verbatim>\<open>Rf_install\<close>, on a name that is too long), and
  at that point a promise (cell 15) and a list cell (cell 16) have been allocated. The
  same happens in \<open>state0\<close> with cell 10, on the empty name.
\<close>

theorem make_call_error_past_validation:
  "checks_pass state2 (Ref 0) (Ref 14) \<and>
   fst (make_call (Ref 0) (Ref 14) state2) =
     Inl (RError ''variable names are limited to 10000 bytes'') \<and>
   heap (snd (make_call (Ref 0) (Ref 14) state2)) 15 = PromNode (Ref 3) (Ref 1) R_UnboundValue \<and>
   heap (snd (make_call (Ref 0) (Ref 14) state2)) 16 = ListNode (Ref 15) R_NilValue R_NilValue \<and>
   checks_pass state0 (Ref 0) (Ref 10) \<and>
   fst (make_call (Ref 0) (Ref 10) state0) =
     Inl (RError ''attempt to use zero-length variable name'') \<and>
   heap (snd (make_call (Ref 0) (Ref 10) state0)) 13 = PromNode (Ref 3) (Ref 1) R_UnboundValue \<and>
   heap (snd (make_call (Ref 0) (Ref 10) state0)) 14 = ListNode (Ref 13) R_NilValue R_NilValue"
proof -
  have "checks_pass state0 (Ref 0) (Ref 10) \<and>
    fst (make_call (Ref 0) (Ref 10) state0) =
      Inl (RError ''attempt to use zero-length variable name'') \<and>
    heap (snd (make_call (Ref 0) (Ref 10) state0)) 13 = PromNode (Ref 3) (Ref 1) R_UnboundValue \<and>
    heap (snd (make_call (Ref 0) (Ref 10) state0)) 14 = ListNode (Ref 13) R_NilValue R_NilValue"
    by code_simp
  with state2_checks show ?thesis by (simp add: state2_run)
qed

text \<open>
  C3, amended. \<^verbatim>\<open>make_call_\<close> raises one of its three validation errors if and only if one
  of the three conditions holds: \<open>fn\<close> is neither a symbol nor a call, \<open>dots\<close> is not a generic
  list, or \<open>dots\<close> does not inherit from \<^verbatim>\<open>lazy_dots\<close>. The error is that of the first failing
  check, and it is raised at once: the state is the one the routine was entered with, so
  nothing has been constructed.
\<close>

theorem make_call_validation_errors:
  "is_validation_error (fst (make_call fn dots s)) = (\<not> checks_pass s fn dots) \<and>
   (\<not> checks_pass s fn dots \<longrightarrow>
      make_call fn dots s = (Inl (first_failed_check s fn dots), s))"
proof (cases "checks_pass s fn dots")
  case False
  then show ?thesis
    using first_failed_check_validation [of s fn dots]
    by (simp add: make_call_rejects is_validation_error_def)
next
  case True
  obtain r s' where run: "make_call fn dots s = (r, s')" by (cases "make_call fn dots s")
  from make_call_effect [OF run] True have "\<not> is_validation_error r"
    by (cases r) (auto simp: is_validation_error_def dest: validation_not_host)
  with run True show ?thesis by simp
qed

theorem make_call_validation_errors_witness:
  "\<not> checks_pass state0 (Ref 1) (Ref 8) \<and>
   is_validation_error (fst (make_call (Ref 1) (Ref 8) state0)) \<and>
   make_call (Ref 1) (Ref 8) state0 = (Inl (RError ''fun must be a call or a symbol''), state0)"
proof -
  have no: "\<not> checks_pass state0 (Ref 1) (Ref 8)" by code_simp
  have first: "first_failed_check state0 (Ref 1) (Ref 8) = RError ''fun must be a call or a symbol''"
    by code_simp
  from make_call_validation_errors [of "Ref 1" "Ref 8" state0] no first show ?thesis
    by (simp add: is_validation_error_def validation_errors_def)
qed

subsection \<open>C4: elements without a name\<close>

text \<open>
  C4 does not hold of the code. With a list of class \<^verbatim>\<open>lazy_dots\<close> whose second element has
  the empty name (cell 10) the routine ends in the error of \<^verbatim>\<open>Rf_install\<close>; with one that
  has no names attribute (cell 11) it applies \<^verbatim>\<open>STRING_ELT\<close> to \<^verbatim>\<open>R_NilValue\<close>. In neither case
  is a call returned with the slot left untagged.
\<close>

theorem make_call_unnamed_elements:
  "fst (make_call (Ref 0) (Ref 10) state0) =
     Inl (RError ''attempt to use zero-length variable name'') \<and>
   fst (make_call (Ref 0) (Ref 11) state0) = Inl (Fault ''STRING_ELT'')"
  by code_simp

subsection \<open>C5: one pass over the elements\<close>

text \<open>
  C5, as stated, fails. Counterexample: in \<open>state2\<close> with \<open>dots\<close> at cell 14 the input passes
  validation and has two elements, but the loop visits index 1 only, where the name is
  refused: element 0 is never visited. The same happens in \<open>state0\<close> with cell 10.
\<close>

theorem make_call_pass_cut_short:
  "checks_pass state2 (Ref 0) (Ref 14) \<and> Rf_length state2 (Ref 14) = 2 \<and>
   visited state2 = [] \<and> visited (snd (make_call (Ref 0) (Ref 14) state2)) = [1] \<and>
   checks_pass state0 (Ref 0) (Ref 10) \<and> Rf_length state0 (Ref 10) = 2 \<and>
   visited state0 = [] \<and> visited (snd (make_call (Ref 0) (Ref 10) state0)) = [1]"
proof -
  have "checks_pass state0 (Ref 0) (Ref 10) \<and> Rf_length state0 (Ref 10) = 2 \<and>
    visited state0 = [] \<and> visited (snd (make_call (Ref 0) (Ref 10) state0)) = [1]"
    by code_simp
  moreover have "Rf_length state2 (Ref 14) = 2 \<and> visited state2 = []"
    by (simp add: Rf_length_def state2_def heap0_def)
  ultimately show ?thesis using state2_checks by (simp add: state2_run)
qed

text \<open>
  C5, amended. For every input that passes validation \<^verbatim>\<open>make_call_\<close> terminates after at
  most one pass over \<open>dots\<close>: the loop visits the indices \<open>n - 1\<close>, \<open>n - 2\<close>, ... in this order,
  none of them twice, and when the routine returns a call it has visited each of the \<open>n\<close>
  elements exactly once, down to index \<open>0\<close>. (\<open>make_call\<close> is a total function: every run
  ends.)
\<close>

theorem make_call_one_pass:
  assumes "make_call fn dots s = (r, s')" and "checks_pass s fn dots"
  shows "case r of
      Inr _ \<Rightarrow> visited s' = visited s @ rev [0..<Rf_length s dots]
    | Inl _ \<Rightarrow> (\<exists>j<Rf_length s dots. visited s' = visited s @ rev [j..<Rf_length s dots])"
  using make_call_effect [OF assms(1)] assms(2) by (cases r) simp_all

theorem make_call_one_pass_witness:
  "checks_pass state0 (Ref 0) (Ref 8) \<and>
   fst (make_call (Ref 0) (Ref 8) state0) = Inr (Ref 19) \<and>
   visited (snd (make_call (Ref 0) (Ref 8) state0)) =
     visited state0 @ rev [0..<Rf_length state0 (Ref 8)] \<and>
   visited (snd (make_call (Ref 0) (Ref 8) state0)) = [1, 0]"
proof -
  have "fst (make_call (Ref 0) (Ref 8) state0) = Inr (Ref 19)" using state0_run by (simp add: prod_eq_iff)
  moreover have "visited (snd (make_call (Ref 0) (Ref 8) state0)) = [1, 0]" by code_simp
  ultimately show ?thesis using make_call_one_pass [OF state0_run state0_checks] state0_checks by simp
qed

subsection \<open>C6: evaluation of the arguments\<close>

text \<open>
  C6, against the model of promise access taken from the spec's glossary. When the
  call returned by \<^verbatim>\<open>make_call_\<close> is evaluated later and its arguments are accessed in any
  order and any number of times (\<open>accesses\<close>, a list of argument indices), every access to
  argument \<open>i\<close> yields the value of its expression in the environment recorded with it, and
  the evaluations that take place are exactly those of the first access to each argument:
  each argument is evaluated at most once, on its first access, and later accesses read
  the cached value.
\<close>

theorem promises_forced_once:
  assumes "make_call fn dots s = (Inr call, s')" and "wf_input s dots"
    and "\<forall>e rho. ev e rho \<noteq> R_UnboundValue"
    and "\<forall>i\<in>set accesses. i < Rf_length s dots"
  shows "\<exists>proms specs s''.
      call_args (Rf_length s dots) s' call = Some proms \<and>
      length proms = Rf_length s dots \<and> length specs = Rf_length s dots \<and>
      (\<forall>i<Rf_length s dots. \<exists>dot. vector_elt s dots i = Some dot \<and>
         vector_elt s dot 0 = Some (fst (specs ! i)) \<and>
         vector_elt s dot 1 = Some (snd (specs ! i))) \<and>
      force_all ev (map ((!) proms) accesses) (s', []) =
        (map (\<lambda>i. Some (ev (fst (specs ! i)) (snd (specs ! i)))) accesses, s'',
         map ((!) specs) (first_uses [] accesses)) \<and>
      distinct (first_uses [] accesses)"
proof -
  let ?n = "Rf_length s dots" and ?names = "GET_NAMES s dots"
  from make_call_result [OF assms(1,2)] obtain c args slots where
    call: "call = Ref c" "heap s' c = LangNode fn args R_NilValue"
    and pl: "pairlist s' args slots"
    and sl: "list_all2 (slot_for s s' dots ?names) [0..<?n] slots"
    and dist: "distinct (map snd slots)"
    by blast
  from sl have slen: "length slots = ?n" by (auto dest: list_all2_lengthD)
  let ?proms = "map snd slots"
  let ?specs = "map (\<lambda>i. case arg_spec s dots ?names i of
      Some (e, rho, name) \<Rightarrow> (e, rho) | None \<Rightarrow> (R_NilValue, R_NilValue)) [0..<?n]"
  have ca: "call_args ?n s' call = Some ?proms"
    using call pl slen by (simp add: call_args_def pairlist_read_args)
  have each: "\<exists>e rho name. arg_spec s dots ?names i = Some (e, rho, name) \<and>
      ?specs ! i = (e, rho) \<and> is_promise s' (?proms ! i) e rho" if i: "i < ?n" for i
  proof -
    from sl i have sf: "slot_for s s' dots ?names i (slots ! i)"
      by (simp add: list_all2_conv_all_nth)
    then obtain e rho name where sp: "arg_spec s dots ?names i = Some (e, rho, name)"
      by (auto simp: slot_for_def split: option.splits)
    with sf have "is_promise s' (snd (slots ! i)) e rho"
      by (cases "slots ! i") (simp add: slot_for_def arg_slot_def)
    with sp i slen show ?thesis by simp
  qed
  have reads: "\<forall>i<?n. \<exists>dot. vector_elt s dots i = Some dot \<and>
      vector_elt s dot 0 = Some (fst (?specs ! i)) \<and>
      vector_elt s dot 1 = Some (snd (?specs ! i))"
  proof (intro allI impI)
    fix i assume "i < ?n"
    from each [OF this] obtain e rho name where
      "arg_spec s dots ?names i = Some (e, rho, name)" "?specs ! i = (e, rho)" by blast
    with arg_spec_reads [OF this(1)] show "\<exists>dot. vector_elt s dots i = Some dot \<and>
      vector_elt s dot 0 = Some (fst (?specs ! i)) \<and>
      vector_elt s dot 1 = Some (snd (?specs ! i))" by simp
  qed
  have inv: "cells_inv ev ?proms ?specs [] s'"
    unfolding cells_inv_def
  proof (intro allI impI)
    fix i assume "i < length ?proms"
    then have "i < ?n" using slen by simp
    from each [OF this] obtain e rho name where
      "?specs ! i = (e, rho)" "is_promise s' (?proms ! i) e rho" by blast
    then show "promise_view s' (?proms ! i) =
        Some (fst (?specs ! i), snd (?specs ! i),
              if i \<in> set [] then ev (fst (?specs ! i)) (snd (?specs ! i)) else R_UnboundValue)"
      by (simp add: is_promise_view)
  qed
  have acc: "\<forall>i\<in>set accesses. i < length ?proms" using assms(4) slen by simp
  from force_all_cells [OF inv dist assms(3) acc, of "[]"] obtain s'' where
    "force_all ev (map ((!) ?proms) accesses) (s', []) =
      (map (\<lambda>i. Some (ev (fst (?specs ! i)) (snd (?specs ! i)))) accesses, s'',
       map ((!) ?specs) (first_uses [] accesses))"
    by auto
  moreover have "length ?proms = ?n" "length ?specs = ?n" using slen by simp_all
  ultimately show ?thesis using ca reads first_uses_distinct [of "[]" accesses] by blast
qed

theorem promises_forced_once_witness:
  "fst (make_call (Ref 0) (Ref 8) state0) = Inr (Ref 19) \<and> wf_input state0 (Ref 8) \<and>
   (\<exists>proms specs s''.
      call_args (Rf_length state0 (Ref 8)) (snd (make_call (Ref 0) (Ref 8) state0)) (Ref 19) =
        Some proms \<and>
      length proms = Rf_length state0 (Ref 8) \<and> length specs = Rf_length state0 (Ref 8) \<and>
      (\<forall>i<Rf_length state0 (Ref 8). \<exists>dot. vector_elt state0 (Ref 8) i = Some dot \<and>
         vector_elt state0 dot 0 = Some (fst (specs ! i)) \<and>
         vector_elt state0 dot 1 = Some (snd (specs ! i))) \<and>
      force_all (\<lambda>e rho. R_NilValue) (map ((!) proms) [1, 0, 1::nat])
          (snd (make_call (Ref 0) (Ref 8) state0), []) =
        (map (\<lambda>i. Some R_NilValue) [1, 0, 1::nat], s'', map ((!) specs) (first_uses [] [1, 0, 1::nat])) \<and>
      distinct (first_uses [] [1, 0, 1::nat])) \<and>
   first_uses [] [1, 0, 1::nat] = [1, 0::nat]"
proof -
  have r: "fst (make_call (Ref 0) (Ref 8) state0) = Inr (Ref 19)" using state0_run by (simp add: prod_eq_iff)
  have ev: "\<forall>e rho. (\<lambda>e rho. R_NilValue) e rho \<noteq> R_UnboundValue" by simp
  have acc: "\<forall>i\<in>set [1, 0, 1::nat]. i < Rf_length state0 (Ref 8)" by code_simp
  have fu: "first_uses [] [1, 0, 1::nat] = [1, 0::nat]" by code_simp
  note main = promises_forced_once [OF state0_run state0_wf ev acc]
  show ?thesis by (intro conjI r state0_wf main fu)
qed

subsection \<open>C7: the inputs are left alone\<close>




subsection \<open>C8: the empty list\<close>

text \<open>
  C8. When \<open>dots\<close> is a list of class \<^verbatim>\<open>lazy_dots\<close> with no element, the routine returns a
  call node whose head is \<open>fn\<close> and whose argument list is empty. The names attribute
  \<open>nm\<close> is arbitrary (it is never read), and the final state differs from the initial
  one by the single call node: no promise is built, nothing else changes.
\<close>

theorem make_call_empty_dots:
  assumes "TYPEOF s fn = SYMSXP \<or> TYPEOF s fn = LANGSXP"
    and "heap s d = VecNode [] nm cls"
    and "''lazy_dots'' \<in> set cls"
  shows "make_call fn (Ref d) s =
    (Inr (Ref (nxt s)),
     s\<lparr>heap := (heap s)(nxt s := LangNode fn R_NilValue R_NilValue), nxt := Suc (nxt s)\<rparr>)"
  using assms
  by (auto simp: make_call_def TYPEOF_def inherits_def Rf_length_def LCONS_def alloc_def)

theorem make_call_empty_dots_witness:
  "(TYPEOF state0 (Ref 0) = SYMSXP \<or> TYPEOF state0 (Ref 0) = LANGSXP) \<and>
   heap state0 12 = VecNode [] R_NilValue [''lazy_dots''] \<and>
   make_call (Ref 0) (Ref 12) state0 =
     (Inr (Ref (nxt state0)),
      state0\<lparr>heap := (heap state0)(nxt state0 := LangNode (Ref 0) R_NilValue R_NilValue),
             nxt := Suc (nxt state0)\<rparr>)"
proof -
  have t: "TYPEOF state0 (Ref 0) = SYMSXP \<or> TYPEOF state0 (Ref 0) = LANGSXP" by code_simp
  have h: "heap state0 12 = VecNode [] R_NilValue [''lazy_dots'']" by code_simp
  have c: "''lazy_dots'' \<in> set [''lazy_dots'']" by simp
  from make_call_empty_dots [OF t h c] t h show ?thesis by simp
qed

subsection \<open>C9: determinism\<close>

text \<open>
  C9. Two runs of \<^verbatim>\<open>make_call_\<close>, in any two states, on well-formed inputs that read the
  same (the same \<open>fn\<close>, and lists with the same type, class test, element components and
  names) end the same way: both in the same error, or both with calls that read the same
  (the same head, and slot by slot the same tag name and the same promise). Nothing else
  of the state (other cells, the allocation pointer, the symbol table, the protection
  stack) has a part in the result.
\<close>

theorem make_call_deterministic:
  assumes "wf_input s1 dots1" and "wf_input s2 dots2"
    and "input_view s1 fn1 dots1 = input_view s2 fn2 dots2"
  shows "\<exists>out. outcome_view (Rf_length s1 dots1) (make_call fn1 dots1 s1) = Some out \<and>
     outcome_view (Rf_length s2 dots2) (make_call fn2 dots2 s2) = Some out"
  by (simp add: make_call_refines [OF assms(1)] make_call_refines [OF assms(2)] assms(3))

theorem make_call_deterministic_witness:
  "wf_input state0 (Ref 8) \<and> wf_input state1 (Ref 14) \<and>
   input_view state0 (Ref 0) (Ref 8) = input_view state1 (Ref 0) (Ref 14) \<and>
   (\<exists>out. outcome_view (Rf_length state0 (Ref 8)) (make_call (Ref 0) (Ref 8) state0) = Some out \<and>
      outcome_view (Rf_length state1 (Ref 14)) (make_call (Ref 0) (Ref 14) state1) = Some out)"
proof -
  have wf1: "wf_input state1 (Ref 14)" by code_simp
  have same: "input_view state0 (Ref 0) (Ref 8) = input_view state1 (Ref 0) (Ref 14)"
    by code_simp
  from make_call_deterministic [OF state0_wf wf1 same] state0_wf wf1 same show ?thesis by blast
qed

end
